theory Spec2Isabelle
  imports Main
begin

unbundle bit_operations_syntax

section \<open>String primitives of the C++ standard library used by the sources\<close>

text \<open>
  \<^verbatim>\<open>std::string\<close> is a byte string: \<^typ>\<open>string\<close>. \<^verbatim>\<open>find_first_of(c)\<close> and
  \<^verbatim>\<open>find(sub)\<close> return a position or \<^verbatim>\<open>npos\<close>; \<^verbatim>\<open>npos\<close> is \<^term>\<open>None\<close>.
\<close>

fun find_first_of :: "string \<Rightarrow> char \<Rightarrow> nat option" where
  "find_first_of [] c = None"
| "find_first_of (x # xs) c =
     (if x = c then Some 0 else map_option Suc (find_first_of xs c))"

fun starts_with :: "string \<Rightarrow> string \<Rightarrow> bool" where
  "starts_with s [] = True"
| "starts_with [] (y # ys) = False"
| "starts_with (x # xs) (y # ys) = (x = y \<and> starts_with xs ys)"

fun str_find :: "string \<Rightarrow> string \<Rightarrow> nat option" where
  "str_find [] sub = (if sub = [] then Some 0 else None)"
| "str_find (x # xs) sub =
     (if starts_with (x # xs) sub then Some 0 else map_option Suc (str_find xs sub))"

text \<open>
  \<^verbatim>\<open>s[i]\<close> of a \<^verbatim>\<open>std::string\<close> with \<^verbatim>\<open>i == s.size()\<close> is the terminating
  NUL character; the sources only index within \<^verbatim>\<open>0..size()\<close>.
\<close>

definition char_at :: "string \<Rightarrow> nat \<Rightarrow> char" where
  "char_at s i = (if i < length s then s ! i else CHR 0x00)"

section \<open>Ban mask normalisation (mode.cpp, ModeParser::CleanMask)\<close>

definition CleanMask :: "string \<Rightarrow> string" where
  "CleanMask msk =
     (let pos_of_pling = find_first_of msk (CHR ''!'');
          pos_of_at = find_first_of msk (CHR ''@'');
          pos_of_dot = find_first_of msk (CHR ''.'');
          pos_of_colons = str_find msk ''::''
      in if length msk \<ge> 2 \<and> char_at msk 1 = CHR '':'' then msk
         else if pos_of_pling = None \<and> pos_of_at = None then
           (if pos_of_dot = None \<and> pos_of_colons = None \<and> char_at msk 0 \<noteq> CHR '':''
            then msk @ ''!*@*''
            else ''*!*@'' @ msk)
         else if pos_of_pling = None \<and> pos_of_at \<noteq> None then ''*!'' @ msk
         else if pos_of_pling \<noteq> None \<and> pos_of_at = None then msk @ ''@*''
         else msk)"

lemma find_first_of_None: "find_first_of s c = None \<longleftrightarrow> c \<notin> set s"
  by (induction s) auto

lemma CleanMask_extban: "length m \<ge> 2 \<Longrightarrow> char_at m 1 = CHR '':'' \<Longrightarrow> CleanMask m = m"
  by (simp add: CleanMask_def Let_def)

lemma CleanMask_complete:
  "CHR ''!'' \<in> set m \<Longrightarrow> CHR ''@'' \<in> set m \<Longrightarrow> CleanMask m = m"
  by (simp add: CleanMask_def Let_def find_first_of_None)

lemma CleanMask_result:
  "(length (CleanMask m) \<ge> 2 \<and> char_at (CleanMask m) 1 = CHR '':'')
   \<or> (CHR ''!'' \<in> set (CleanMask m) \<and> CHR ''@'' \<in> set (CleanMask m))"
  by (auto simp: CleanMask_def Let_def find_first_of_None)

text \<open>
  C6. Mask cleaning is idempotent: \<open>clean (clean m) = clean m\<close> for every string \<open>m\<close>,
  and an ext-ban input (at least two characters, the second one a colon) is returned
  unchanged.
\<close>

theorem CleanMask_idempotent:
  "CleanMask (CleanMask m) = CleanMask m
   \<and> (length x \<ge> 2 \<and> char_at x 1 = CHR '':'' \<longrightarrow> CleanMask x = x)"
  using CleanMask_result [of m] CleanMask_extban CleanMask_complete by blast

theorem CleanMask_idempotent_witness:
  "CleanMask (CleanMask ''nick'') = CleanMask ''nick''
   \<and> (length ''r:foo'' \<ge> 2 \<and> char_at ''r:foo'' 1 = CHR '':'' \<and> CleanMask ''r:foo'' = ''r:foo'')"
  using CleanMask_idempotent [of "''nick''" "''r:foo''"] by (simp add: char_at_def)


section \<open>Configuration tags and their typed accessors (configparser.cpp)\<close>

text \<open>
  A \<^verbatim>\<open>ConfigTag\<close> has a name, the position it was opened at and its items. The items
  are a flat map from key to value; the model keeps them as an association list in the
  order of iteration, which is the order of the keys (no key occurs twice, see \<open>kv\<close>
  below). \<^verbatim>\<open>Logs.Log\<close> calls only print diagnostics and are left out of the model.
\<close>

record FilePosition =
  pos_name :: string
  pos_line :: nat
  pos_column :: nat

record ConfigTag =
  tag_name :: string
  tag_source :: FilePosition
  tag_items :: "(string \<times> string) list"

abbreviation (input) NL :: char where "NL \<equiv> CHR 0x0A"
abbreviation (input) CR :: char where "CR \<equiv> CHR 0x0D"
abbreviation (input) TAB :: char where "TAB \<equiv> CHR 0x09"
abbreviation (input) DQ :: char where "DQ \<equiv> CHR 0x22"

text \<open>
  Modelled from the spec: \<^verbatim>\<open>stdalgo::string::equalsci\<close> (stdalgo.h is not among the
  sources), the case-insensitive comparison of two ASCII strings.
\<close>

fun ascii_tolower :: "char \<Rightarrow> char" where
  "ascii_tolower (Char b0 b1 b2 b3 b4 b5 b6 b7) =
     (if \<not> b7 \<and> b6 \<and> \<not> b5 \<and> (b0 \<or> b1 \<or> b2 \<or> b3 \<or> b4) \<and> \<not> (b4 \<and> b3 \<and> (b2 \<or> (b1 \<and> b0)))
      then Char b0 b1 b2 b3 b4 True b6 b7
      else Char b0 b1 b2 b3 b4 b5 b6 b7)"

text \<open>The bit pattern is that of the codes 65 to 90, and the result is the code plus 32.\<close>

lemma of_char_ascii_tolower:
  "of_char (ascii_tolower c) =
     (if 65 \<le> (of_char c :: nat) \<and> (of_char c :: nat) \<le> 90 then of_char c + 32 else (of_char c :: nat))"
  by (cases c) auto

definition equalsci :: "string \<Rightarrow> string \<Rightarrow> bool" where
  "equalsci a b = (map ascii_tolower a = map ascii_tolower b)"

text \<open>
  Modelled from the spec: \<^verbatim>\<open>irc::insensitive_swo\<close> (hashcomp.cpp is not among the
  sources), the order of the keys of a tag's items and of the tags of the configuration:
  strings are compared character by character without regard to case.
\<close>

fun insensitive_swo :: "string \<Rightarrow> string \<Rightarrow> bool" where
  "insensitive_swo a [] = False"
| "insensitive_swo [] (y # ys) = True"
| "insensitive_swo (x # xs) (y # ys) =
     ((of_char (ascii_tolower x) :: nat) < of_char (ascii_tolower y)
      \<or> (ascii_tolower x = ascii_tolower y \<and> insensitive_swo xs ys))"

text \<open>
  \<^verbatim>\<open>insert\<close> into a flat map whose keys do not hold the new key, and \<^verbatim>\<open>emplace\<close>
  into a multimap: the entry goes before the first entry with a greater key.
\<close>

fun flat_map_insert :: "string \<Rightarrow> 'v \<Rightarrow> (string \<times> 'v) list \<Rightarrow> (string \<times> 'v) list" where
  "flat_map_insert k v [] = [(k, v)]"
| "flat_map_insert k v (e # es) =
     (if insensitive_swo k (fst e) then (k, v) # e # es else e # flat_map_insert k v es)"

text \<open>
  \<^verbatim>\<open>readString(key, value, allow_lf)\<close> returns whether the key exists and stores the
  value through its reference argument: the model returns \<^term>\<open>Some value\<close> or
  \<^term>\<open>None\<close> (the caller's variable keeps its old content).
\<close>

fun readString_items :: "(string \<times> string) list \<Rightarrow> string \<Rightarrow> bool \<Rightarrow> string option" where
  "readString_items [] key allow_lf = None"
| "readString_items ((ikey, ivalue) # rest) key allow_lf =
     (if \<not> equalsci ikey key then readString_items rest key allow_lf
      else if \<not> allow_lf \<and> NL \<in> set ivalue
           then Some (map (\<lambda>chr. if chr = NL then CHR '' '' else chr) ivalue)
           else Some ivalue)"

definition readString :: "ConfigTag \<Rightarrow> string \<Rightarrow> bool \<Rightarrow> string option" where
  "readString tag key allow_lf = readString_items (tag_items tag) key allow_lf"

text \<open>
  \<^verbatim>\<open>getString(key, def, minlen, maxlen)\<close>; the header's default arguments are
  \<^verbatim>\<open>def = ""\<close>, \<^verbatim>\<open>minlen = 0\<close> and \<^verbatim>\<open>maxlen = UINT32_MAX\<close>.
\<close>

definition UINT32_MAX :: nat where
  "UINT32_MAX = 4294967295"

definition getString :: "ConfigTag \<Rightarrow> string \<Rightarrow> string \<Rightarrow> nat \<Rightarrow> nat \<Rightarrow> string" where
  "getString tag key def minlen maxlen =
     (case readString tag key False of
        None \<Rightarrow> def
      | Some res \<Rightarrow> if length res < minlen \<or> length res > maxlen then def else res)"

definition getBool :: "ConfigTag \<Rightarrow> string \<Rightarrow> bool \<Rightarrow> bool" where
  "getBool tag key def =
     (case readString tag key False of
        None \<Rightarrow> def
      | Some result \<Rightarrow>
          if result = [] then def
          else if equalsci result ''yes'' \<or> equalsci result ''true'' \<or> equalsci result ''on''
          then True
          else if equalsci result ''no'' \<or> equalsci result ''false'' \<or> equalsci result ''off''
          then False
          else def)"

section \<open>Include flags (configparser.cpp, ParseFlags and ParseStack::DoInclude)\<close>

text \<open>
  The flags are a C \<^verbatim>\<open>int\<close> used as a bit set; only the bitwise operations
  \<^verbatim>\<open>&\<close>, \<^verbatim>\<open>|=\<close> and \<^verbatim>\<open>&= ~\<close> are applied to it, which cannot overflow.
\<close>

definition FLAG_NO_EXEC :: int where "FLAG_NO_EXEC = 2"
definition FLAG_NO_INC :: int where "FLAG_NO_INC = 4"
definition FLAG_NO_ENV :: int where "FLAG_NO_ENV = 8"
definition FLAG_MISSING_OKAY :: int where "FLAG_MISSING_OKAY = 16"

text \<open>
  What the parser asks of the process around it: opening a file, running a command and
  reading its output, the environment, the directory listing (each entry with whether it
  is a regular file, or the \<^verbatim>\<open>what()\<close> of the \<^verbatim>\<open>filesystem_error\<close>), and three
  functions of the repository that are not among the sources and are taken as
  parameters: \<^verbatim>\<open>Paths.PrependConfig\<close>, \<^verbatim>\<open>InspIRCd::Match(path, "*.conf")\<close> and
  \<^verbatim>\<open>FilePosition::str\<close>.
\<close>

record os =
  fopen :: "string \<Rightarrow> string option"
  popen :: "string \<Rightarrow> string option"
  getenv :: "string \<Rightarrow> string option"
  directory_iterator :: "string \<Rightarrow> string + (string \<times> bool) list"
  PrependConfig :: "string \<Rightarrow> string"
  Match_conf :: "string \<Rightarrow> bool"
  pos_str :: "FilePosition \<Rightarrow> string"

text \<open>
  \<^verbatim>\<open>ParseFile(path, flags, mandatory_tag, isexec)\<close> as \<open>DoInclude\<close> calls it: it returns
  a boolean or throws, and changes the parse stack \<open>'s\<close>. \<open>DoInclude\<close> takes it as an
  argument; the recursion through included files is closed in \<open>ParseFile\<close> below.
\<close>

text \<open>
  A \<^verbatim>\<open>CoreException\<close> carries its reason. \<open>Diverged\<close> is not an exception of the
  program: it marks a run that does not return (a chain of includes that never ends),
  and \<open>NullDereference\<close> marks a run that uses the parser's tag while it is null. No
  \<^verbatim>\<open>catch\<close> of the model catches either.
\<close>

datatype exn = CoreException string | Diverged | NullDereference

type_synonym 's include_fn = "string \<Rightarrow> int \<Rightarrow> string \<Rightarrow> bool \<Rightarrow> 's \<Rightarrow> (exn + bool) \<times> 's"

fun include_directory ::
  "'s include_fn \<Rightarrow> os \<Rightarrow> (string \<times> bool) list \<Rightarrow> int \<Rightarrow> string \<Rightarrow> 's \<Rightarrow> (exn + unit) \<times> 's" where
  "include_directory ParseFile E [] flags mandatorytag st = (Inr (), st)"
| "include_directory ParseFile E ((path, is_regular_file) # entries) flags mandatorytag st =
     (if \<not> is_regular_file then include_directory ParseFile E entries flags mandatorytag st
      else if \<not> Match_conf E path then include_directory ParseFile E entries flags mandatorytag st
      else case ParseFile path flags mandatorytag False st of
             (Inl err, st') \<Rightarrow> (Inl err, st')
           | (Inr ok, st') \<Rightarrow>
               if \<not> ok then (Inl (CoreException ''Included''), st')
               else include_directory ParseFile E entries flags mandatorytag st')"

definition DoInclude ::
  "'s include_fn \<Rightarrow> os \<Rightarrow> ConfigTag \<Rightarrow> int \<Rightarrow> 's \<Rightarrow> (exn + unit) \<times> 's" where
  "DoInclude ParseFile E tag flags0 st =
     (if flags0 AND FLAG_NO_INC \<noteq> 0
      then (Inl (CoreException (''Invalid <include> tag in file included with noinclude=''
                                @ [DQ] @ ''yes'' @ [DQ])), st)
      else
        let mandatorytag = (case readString tag ''mandatorytag'' False of Some v \<Rightarrow> v | None \<Rightarrow> [])
        in case readString tag ''file'' False of
          Some name \<Rightarrow>
            let flags = (if getBool tag ''noinclude'' False then flags0 OR FLAG_NO_INC else flags0);
                flags = (if getBool tag ''noexec'' False then flags OR FLAG_NO_EXEC else flags);
                flags = (if getBool tag ''noenv'' False then flags OR FLAG_NO_ENV else flags);
                flags = (if getBool tag ''missingokay'' False then flags OR FLAG_MISSING_OKAY
                         else flags AND NOT FLAG_MISSING_OKAY)
            in (case ParseFile (PrependConfig E name) flags mandatorytag False st of
                  (Inl err, st') \<Rightarrow> (Inl err, st')
                | (Inr ok, st') \<Rightarrow> if \<not> ok then (Inl (CoreException ''Included''), st') else (Inr (), st'))
        | None \<Rightarrow>
          (case readString tag ''directory'' False of
            Some name \<Rightarrow>
              let flags = (if getBool tag ''noinclude'' False then flags0 OR FLAG_NO_INC else flags0);
                  flags = (if getBool tag ''noexec'' False then flags OR FLAG_NO_EXEC else flags);
                  flags = (if getBool tag ''noenv'' False then flags OR FLAG_NO_ENV else flags);
                  includedir = PrependConfig E name
              in (case directory_iterator E includedir of
                    Inl what \<Rightarrow>
                      (Inl (CoreException (''Unable to read directory for include '' @ includedir
                                          @ '': '' @ what)), st)
                  | Inr entries \<Rightarrow> include_directory ParseFile E entries flags mandatorytag st)
          | None \<Rightarrow>
            (case readString tag ''executable'' False of
              Some name \<Rightarrow>
                if flags0 AND FLAG_NO_EXEC \<noteq> 0
                then (Inl (CoreException (''Invalid <include:executable> tag in file included with noexec=''
                                          @ [DQ] @ ''yes'' @ [DQ])), st)
                else
                  let flags = (if getBool tag ''noinclude'' False then flags0 OR FLAG_NO_INC else flags0);
                      flags = (if getBool tag ''noexec'' True then flags OR FLAG_NO_EXEC else flags);
                      flags = (if getBool tag ''noenv'' True then flags OR FLAG_NO_ENV else flags)
                  in (case ParseFile name flags mandatorytag True st of
                        (Inl err, st') \<Rightarrow> (Inl err, st')
                      | (Inr ok, st') \<Rightarrow> if \<not> ok then (Inl (CoreException ''Included''), st') else (Inr (), st'))
            | None \<Rightarrow> (Inr (), st))))"

text \<open>A flag is active when \<^verbatim>\<open>flags & FLAG\<close> is not zero.\<close>

definition has_flag :: "int \<Rightarrow> int \<Rightarrow> bool" where
  "has_flag flags F = (flags AND F \<noteq> 0)"

lemma has_flag_bits:
  "has_flag f FLAG_NO_EXEC = bit f 1"
  "has_flag f FLAG_NO_INC = bit f 2"
  "has_flag f FLAG_NO_ENV = bit f 3"
  "has_flag f FLAG_MISSING_OKAY = bit f 4"
  using and_exp_eq_0_iff_not_bit[of f 1] and_exp_eq_0_iff_not_bit[of f 2]
    and_exp_eq_0_iff_not_bit[of f 3] and_exp_eq_0_iff_not_bit[of f 4]
  by (simp_all add: has_flag_def FLAG_NO_EXEC_def FLAG_NO_INC_def FLAG_NO_ENV_def FLAG_MISSING_OKAY_def)

lemma bit_flag_consts:
  "bit (2::int) n = (n = 1)" "bit (4::int) n = (n = 2)" "bit (8::int) n = (n = 3)" "bit (16::int) n = (n = 4)"
  using bit_exp_iff[where ?'a = int, of 1 n] bit_exp_iff[where ?'a = int, of 2 n]
    bit_exp_iff[where ?'a = int, of 3 n] bit_exp_iff[where ?'a = int, of 4 n]
  by auto

lemma flag_bits [simp]:
  "bit (f OR FLAG_NO_EXEC) n = (bit f n \<or> n = 1)"
  "bit (f OR FLAG_NO_INC) n = (bit f n \<or> n = 2)"
  "bit (f OR FLAG_NO_ENV) n = (bit f n \<or> n = 3)"
  "bit (f OR FLAG_MISSING_OKAY) n = (bit f n \<or> n = 4)"
  "bit (f AND NOT FLAG_MISSING_OKAY) n = (bit f n \<and> n \<noteq> 4)"
  unfolding FLAG_NO_EXEC_def FLAG_NO_INC_def FLAG_NO_ENV_def FLAG_MISSING_OKAY_def
    bit_or_iff bit_and_iff bit_not_iff bit_flag_consts
  by simp_all

lemma getBool_default: "getBool tag key False \<Longrightarrow> getBool tag key True"
  by (auto simp: getBool_def split: option.splits if_splits)



lemma snd_include_result [simp]:
  "snd (case r of (Inl err, st') \<Rightarrow> (Inl err, st')
        | (Inr ok, st') \<Rightarrow> if \<not> ok then (Inl e2, st') else (Inr (), st')) = snd r"
  by (cases r) (auto split: sum.splits)

lemma include_directory_calls:
  assumes PF: "\<And>p f m x st. snd (PF p f m x st) = st @ [(p, f, m, x)]"
  shows "c \<in> set (snd (include_directory PF E entries flags mt calls))
   \<Longrightarrow> c \<in> set calls \<or> fst (snd c) = flags"
proof (induction entries arbitrary: calls)
  case Nil
  then show ?case by simp
next
  case (Cons e entries)
  obtain path reg where e: "e = (path, reg)" by (cases e)
  show ?case
  proof (cases "reg \<and> Match_conf E path")
    case False
    with Cons e show ?thesis by (auto split: if_splits)
  next
    case True
    obtain r st' where r: "PF path flags mt False calls = (r, st')"
      by (cases "PF path flags mt False calls")
    with PF[of path flags mt False calls] have st': "st' = calls @ [(path, flags, mt, False)]"
      by simp
    show ?thesis
    proof (cases "r = Inr True")
      case False
      with Cons.prems e True r st' show ?thesis by (cases r) auto
    next
      case ok: True
      with Cons.prems e True r st'
      have "c \<in> set (snd (include_directory PF E entries flags mt
                 (calls @ [(path, flags, mt, False)])))"
        by simp
      from Cons.IH[OF this] show ?thesis by auto
    qed
  qed
qed

definition common_flags :: "ConfigTag \<Rightarrow> bool \<Rightarrow> int \<Rightarrow> int" where
  "common_flags tag d flags0 =
     (let flags = (if getBool tag ''noinclude'' False then flags0 OR FLAG_NO_INC else flags0);
          flags = (if getBool tag ''noexec'' d then flags OR FLAG_NO_EXEC else flags);
          flags = (if getBool tag ''noenv'' d then flags OR FLAG_NO_ENV else flags)
      in flags)"

lemma DoInclude_noinc:
  "flags AND FLAG_NO_INC \<noteq> 0 \<Longrightarrow> snd (DoInclude PF E tag flags st) = st"
  by (simp add: DoInclude_def)

lemma DoInclude_file_calls:
  assumes PF: "\<And>p f m x st. snd (PF p f m x st) = st @ [(p, f, m, x)]"
  shows "flags AND FLAG_NO_INC = 0 \<Longrightarrow> readString tag ''file'' False = Some name \<Longrightarrow>
   \<exists>mt. snd (DoInclude PF E tag flags calls) =
     calls @ [(PrependConfig E name,
               (if getBool tag ''missingokay'' False then common_flags tag False flags OR FLAG_MISSING_OKAY
                else common_flags tag False flags AND NOT FLAG_MISSING_OKAY), mt, False)]"
  unfolding common_flags_def Let_def DoInclude_def
  by (simp add: PF split del: if_split)

lemma DoInclude_directory_calls:
  assumes PF: "\<And>p f m x st. snd (PF p f m x st) = st @ [(p, f, m, x)]"
    and "flags AND FLAG_NO_INC = 0" and "readString tag ''file'' False = None"
    and "readString tag ''directory'' False = Some name"
    and c: "c \<in> set (snd (DoInclude PF E tag flags []))"
  shows "fst (snd c) = common_flags tag False flags"
proof (cases "directory_iterator E (PrependConfig E name)")
  case (Inl what)
  with assms(2-) show ?thesis
    unfolding common_flags_def Let_def DoInclude_def
    by (simp split del: if_split)
next
  case (Inr entries)
  with assms(2-) obtain mt where
    "c \<in> set (snd (include_directory PF E entries (common_flags tag False flags) mt []))"
    unfolding common_flags_def Let_def DoInclude_def
    by (simp split del: if_split)
  from include_directory_calls[of PF, OF PF this] show ?thesis by simp
qed

lemma DoInclude_executable_calls:
  assumes PF: "\<And>p f m x st. snd (PF p f m x st) = st @ [(p, f, m, x)]"
    and "flags AND FLAG_NO_INC = 0" and "readString tag ''file'' False = None"
    and "readString tag ''directory'' False = None"
    and "readString tag ''executable'' False = Some name"
    and c: "c \<in> set (snd (DoInclude PF E tag flags []))"
  shows "flags AND FLAG_NO_EXEC = 0 \<and> fst (snd c) = common_flags tag True flags"
proof (cases "flags AND FLAG_NO_EXEC = 0")
  case True
  with assms(2-) show ?thesis
    unfolding common_flags_def Let_def DoInclude_def
    by (simp add: PF split del: if_split)
next
  case False
  with assms(2-) show ?thesis
    unfolding common_flags_def Let_def DoInclude_def
    by (simp split del: if_split)
qed

lemma DoInclude_none_calls:
  "readString tag ''file'' False = None \<Longrightarrow>
   readString tag ''directory'' False = None \<Longrightarrow>
   readString tag ''executable'' False = None \<Longrightarrow>
   snd (DoInclude PF E tag flags st) = st"
  by (simp add: DoInclude_def)

lemma bit_common_flags:
  "bit (common_flags tag d flags) n =
     (bit flags n \<or> (getBool tag ''noinclude'' False \<and> n = 2)
      \<or> (getBool tag ''noexec'' d \<and> n = 1) \<or> (getBool tag ''noenv'' d \<and> n = 3))"
  by (auto simp add: common_flags_def Let_def)

text \<open>
  C8 (as amended). Every call that \<open>DoInclude\<close> makes to \<open>ParseFile\<close> passes flags in
  which \<open>noinclude\<close>, \<open>noexec\<close> and \<open>noenv\<close> are still active when they were active
  for the including file, and are active when the tag's attribute is true. The flag
  \<open>missingokay\<close> is not inherited by a \<open>file\<close> include: it is active for the included
  file exactly when the tag's attribute is true; a \<open>directory\<close> or \<open>executable\<close>
  include passes it on unchanged and does not read the attribute. The callback stands
  for any \<open>ParseFile\<close> that records the arguments of its calls.
\<close>

theorem DoInclude_flags:
  assumes PF: "\<And>p f m x st. snd (PF p f m x st) = st @ [(p, f, m, x)]"
    and call: "(path, flags', mt, isexec) \<in> set (snd (DoInclude PF E tag flags []))"
  shows "(has_flag flags FLAG_NO_INC \<longrightarrow> has_flag flags' FLAG_NO_INC)
       \<and> (has_flag flags FLAG_NO_EXEC \<longrightarrow> has_flag flags' FLAG_NO_EXEC)
       \<and> (has_flag flags FLAG_NO_ENV \<longrightarrow> has_flag flags' FLAG_NO_ENV)
       \<and> (getBool tag ''noinclude'' False \<longrightarrow> has_flag flags' FLAG_NO_INC)
       \<and> (getBool tag ''noexec'' False \<longrightarrow> has_flag flags' FLAG_NO_EXEC)
       \<and> (getBool tag ''noenv'' False \<longrightarrow> has_flag flags' FLAG_NO_ENV)
       \<and> (readString tag ''file'' False \<noteq> None \<longrightarrow>
            has_flag flags' FLAG_MISSING_OKAY = getBool tag ''missingokay'' False)
       \<and> (readString tag ''file'' False = None \<longrightarrow>
            has_flag flags' FLAG_MISSING_OKAY = has_flag flags FLAG_MISSING_OKAY)"
proof -
  have noinc: "flags AND FLAG_NO_INC = 0"
  proof (rule ccontr)
    assume "flags AND FLAG_NO_INC \<noteq> 0"
    from DoInclude_noinc[OF this] have "snd (DoInclude PF E tag flags []) = []" .
    with call show False by simp
  qed
  show ?thesis
  proof (cases "readString tag ''file'' False")
    case (Some name)
    from DoInclude_file_calls[of PF, OF PF noinc Some, of E "[]"] call
    have "flags' = (if getBool tag ''missingokay'' False then common_flags tag False flags OR FLAG_MISSING_OKAY
                else common_flags tag False flags AND NOT FLAG_MISSING_OKAY)"
      by auto
    then show ?thesis using Some
      by (simp add: has_flag_bits bit_common_flags)
  next
    case None
    note nofile = None
    show ?thesis
    proof (cases "readString tag ''directory'' False")
      case (Some name)
      from DoInclude_directory_calls[of PF, OF PF noinc nofile Some call]
      show ?thesis using nofile
        by (simp add: has_flag_bits bit_common_flags)
    next
      case None
      note nodir = None
      show ?thesis
      proof (cases "readString tag ''executable'' False")
        case None
        with call nofile nodir DoInclude_none_calls[of tag PF E flags "[]"] show ?thesis
          by simp
      next
        case (Some name)
        from DoInclude_executable_calls[of PF, OF PF noinc nofile nodir Some call]
        show ?thesis using nofile getBool_default[of tag "''noexec''"] getBool_default[of tag "''noenv''"]
          by (auto simp add: has_flag_bits bit_common_flags)
      qed
    qed
  qed
qed


text \<open>An \<open>include_fn\<close> that only records its calls, and a process with no files.\<close>

definition log_call :: "(string \<times> int \<times> string \<times> bool) list include_fn" where
  "log_call path flags mandatory_tag isexec calls =
     (Inr True, calls @ [(path, flags, mandatory_tag, isexec)])"

definition no_files :: os where
  "no_files = \<lparr> fopen = (\<lambda>p. None), popen = (\<lambda>p. None), getenv = (\<lambda>v. None),
       directory_iterator = (\<lambda>d. Inl ''No such file or directory''),
       PrependConfig = (\<lambda>p. p), Match_conf = (\<lambda>p. False),
       pos_str = (\<lambda>p. pos_name p) \<rparr>"

definition include_tag :: "(string \<times> string) list \<Rightarrow> ConfigTag" where
  "include_tag kvs = \<lparr> tag_name = ''include'',
       tag_source = \<lparr> pos_name = ''inspircd.conf'', pos_line = 1, pos_column = 1 \<rparr>,
       tag_items = kvs \<rparr>"

lemma snd_log_call: "snd (log_call p f m x st) = st @ [(p, f, m, x)]"
  by (simp add: log_call_def)

lemma include_tag_calls:
  "snd (DoInclude log_call no_files (include_tag [(''file'', ''x.conf''), (''noenv'', ''yes'')]) 2 [])
     = [(''x.conf'', 10, [], False)]"
  "snd (DoInclude log_call no_files (include_tag [(''file'', ''x.conf'')]) 16 [])
     = [(''x.conf'', 0, [], False)]"
  by (simp_all add: DoInclude_def include_tag_def no_files_def log_call_def readString_def getBool_def
      equalsci_def FLAG_NO_EXEC_def FLAG_NO_INC_def FLAG_NO_ENV_def
      FLAG_MISSING_OKAY_def)

theorem DoInclude_flags_witness:
  "(''x.conf'', 10, [], False)
     \<in> set (snd (DoInclude log_call no_files (include_tag [(''file'', ''x.conf''), (''noenv'', ''yes'')]) 2 []))
   \<and> has_flag 2 FLAG_NO_EXEC \<and> has_flag 10 FLAG_NO_EXEC
   \<and> getBool (include_tag [(''file'', ''x.conf''), (''noenv'', ''yes'')]) ''noenv'' False
   \<and> has_flag 10 FLAG_NO_ENV \<and> \<not> has_flag 10 FLAG_MISSING_OKAY"
proof -
  have call: "(''x.conf'', 10, [], False)
     \<in> set (snd (DoInclude log_call no_files (include_tag [(''file'', ''x.conf''), (''noenv'', ''yes'')]) 2 []))"
    by (simp add: include_tag_calls)
  have 1: "has_flag 2 FLAG_NO_EXEC"
    by (simp add: has_flag_def FLAG_NO_EXEC_def)
  have 2: "getBool (include_tag [(''file'', ''x.conf''), (''noenv'', ''yes'')]) ''noenv'' False"
    by (simp add: include_tag_def readString_def getBool_def equalsci_def)
  have 3: "readString (include_tag [(''file'', ''x.conf''), (''noenv'', ''yes'')]) ''file'' False \<noteq> None"
    by (simp add: include_tag_def readString_def equalsci_def)
  have 4: "\<not> getBool (include_tag [(''file'', ''x.conf''), (''noenv'', ''yes'')]) ''missingokay'' False"
    by (simp add: include_tag_def readString_def getBool_def equalsci_def)
  from DoInclude_flags[of log_call, OF snd_log_call call] 1 2 3 4 call show ?thesis
    by blast
qed

text \<open>
  The claim as stated fails for \<open>missingokay\<close>: a file included with the flag active
  that itself has \<^verbatim>\<open><include file="x.conf">\<close> parses \<open>x.conf\<close> with the flag cleared.
\<close>

theorem DoInclude_missingokay_counterexample:
  "has_flag 16 FLAG_MISSING_OKAY
   \<and> snd (DoInclude log_call no_files (include_tag [(''file'', ''x.conf'')]) 16 [])
       = [(''x.conf'', 0, [], False)]
   \<and> \<not> has_flag 0 FLAG_MISSING_OKAY"
  by (simp add: include_tag_calls has_flag_def FLAG_MISSING_OKAY_def)

section \<open>Shunned users (modules/m_shun.cpp)\<close>

datatype ModResult = MOD_RES_DENY | MOD_RES_PASSTHRU | MOD_RES_ALLOW

text \<open>
  Modelled from the spec: \<^verbatim>\<open>irc::spacesepstream\<close> (hashcomp.cpp is not among the
  sources), which yields the non-empty tokens of a space separated list one by one.
\<close>

fun sepstream_tokens :: "char \<Rightarrow> string \<Rightarrow> string \<Rightarrow> string list" where
  "sepstream_tokens sep tok [] = (if tok = [] then [] else [tok])"
| "sepstream_tokens sep tok (c # cs) =
     (if c = sep
      then (if tok = [] then sepstream_tokens sep [] cs else tok # sepstream_tokens sep [] cs)
      else sepstream_tokens sep (tok @ [c]) cs)"

definition spacesepstream :: "string \<Rightarrow> string list" where
  "spacesepstream s = sepstream_tokens (CHR '' '') [] s"

text \<open>
  \<^verbatim>\<open>insp::flat_set<std::string, irc::insensitive_swo>\<close>: a set of strings that are
  compared without regard to case. The model keeps the elements in a list; \<open>insert\<close>
  adds a string unless an equivalent one is there, \<open>count\<close> tells whether one is.
\<close>

definition flat_set_count :: "string list \<Rightarrow> string \<Rightarrow> bool" where
  "flat_set_count xs x = (\<exists>y \<in> set xs. equalsci y x)"

definition flat_set_insert :: "string list \<Rightarrow> string \<Rightarrow> string list" where
  "flat_set_insert xs x = (if flat_set_count xs x then xs else xs @ [x])"

record ModuleShun =
  cleanedcommands :: "string list"
  enabledcommands :: "string list"
  allowconnect :: bool
  allowtags :: bool
  notifyuser :: bool

text \<open>\<open>ReadConfig\<close> gets the \<^verbatim>\<open><shun>\<close> tag that \<^verbatim>\<open>ConfValue("shun")\<close> returns.\<close>

definition ReadConfig :: "ConfigTag \<Rightarrow> ModuleShun" where
  "ReadConfig tag =
     \<lparr> cleanedcommands =
         foldl flat_set_insert [] (spacesepstream (getString tag ''cleanedcommands'' ''AWAY PART QUIT'' 0 UINT32_MAX)),
       enabledcommands =
         foldl flat_set_insert [] (spacesepstream (getString tag ''enabledcommands'' ''ADMIN OPER PING PONG QUIT'' 1 UINT32_MAX)),
       allowconnect = getBool tag ''allowconnect'' False,
       allowtags = getBool tag ''allowtags'' False,
       notifyuser = getBool tag ''notifyuser'' True \<rparr>"

text \<open>
  What \<open>IsShunned\<close> reads of a local user: the registration state, the oper privileges
  and whether a SHUN line matches (\<^verbatim>\<open>XLines->MatchesLine("SHUN", user)\<close>; the X-line
  store is not among the sources).
\<close>

datatype Registration = REG_NONE | REG_USER | REG_NICK | REG_NICKUSER | REG_ALL

record LocalUser =
  registered :: Registration
  HasPrivPermission :: "string \<Rightarrow> bool"
  MatchesLine :: "string \<Rightarrow> bool"

definition IsShunned :: "ModuleShun \<Rightarrow> LocalUser \<Rightarrow> bool" where
  "IsShunned m user =
     (if allowconnect m \<and> registered user \<noteq> REG_ALL then False
      else if HasPrivPermission user ''servers/ignore-shun'' then False
      else MatchesLine user ''SHUN'')"

text \<open>
  The parameters of a command: the list of parameters and the message tags. The hook
  changes the command's parameters in place and may write a notice to the user; the model
  returns the result, the parameters and the notices written.
\<close>

record Params =
  params :: "string list"
  tags :: "(string \<times> string) list"

definition OnPreCommand ::
  "ModuleShun \<Rightarrow> string \<Rightarrow> Params \<Rightarrow> LocalUser \<Rightarrow> bool \<Rightarrow> ModResult \<times> Params \<times> string list" where
  "OnPreCommand m command parameters user validated =
     (if validated \<or> \<not> IsShunned m user then (MOD_RES_PASSTHRU, parameters, [])
      else if \<not> flat_set_count (enabledcommands m) command
      then (MOD_RES_DENY, parameters,
            if notifyuser m
            then [''*** '' @ command @ '' command not processed as you have been blocked from issuing commands.'']
            else [])
      else
        let parameters =
              (if \<not> allowtags m
               then parameters\<lparr> tags := filter (\<lambda>tag. char_at (fst tag) 0 \<noteq> CHR ''+'') (tags parameters) \<rparr>
               else parameters);
            parameters =
              (if flat_set_count (cleanedcommands m) command
               then (if command = ''AWAY'' \<and> params parameters \<noteq> []
                     then parameters\<lparr> params := [] \<rparr>
                     else if command = ''PART'' \<and> length (params parameters) > 1
                     then parameters\<lparr> params := butlast (params parameters) \<rparr>
                     else if command = ''QUIT'' \<and> params parameters \<noteq> []
                     then parameters\<lparr> params := [] \<rparr>
                     else parameters)
               else parameters)
        in (MOD_RES_PASSTHRU, parameters, []))"

lemma spacesepstream_enabled:
  "foldl flat_set_insert [] (spacesepstream ''ADMIN OPER PING PONG QUIT'')
     = [''ADMIN'', ''OPER'', ''PING'', ''PONG'', ''QUIT'']"
  by (simp add: spacesepstream_def flat_set_insert_def flat_set_count_def equalsci_def)

lemma spacesepstream_cleaned:
  "foldl flat_set_insert [] (spacesepstream ''AWAY PART QUIT'') = [''AWAY'', ''PART'', ''QUIT'']"
  by (simp add: spacesepstream_def flat_set_insert_def flat_set_count_def equalsci_def)

lemma ReadConfig_shun:
  assumes "readString tag ''enabledcommands'' False = Some ''ADMIN OPER PING PONG QUIT''"
    and "readString tag ''cleanedcommands'' False = Some ''AWAY PART QUIT''"
    and "readString tag ''notifyuser'' False = None"
  shows "enabledcommands (ReadConfig tag) = [''ADMIN'', ''OPER'', ''PING'', ''PONG'', ''QUIT'']"
    and "cleanedcommands (ReadConfig tag) = [''AWAY'', ''PART'', ''QUIT'']"
    and "notifyuser (ReadConfig tag)"
  using assms
  by (simp_all add: ReadConfig_def getString_def getBool_def UINT32_MAX_def
      spacesepstream_enabled spacesepstream_cleaned)

lemma count_WHOIS:
  "\<not> flat_set_count [''ADMIN'', ''OPER'', ''PING'', ''PONG'', ''QUIT''] ''WHOIS''"
  "flat_set_count [''ADMIN'', ''OPER'', ''PING'', ''PONG'', ''QUIT''] ''QUIT''"
  "flat_set_count [''AWAY'', ''PART'', ''QUIT''] ''QUIT''"
  by (simp_all add: flat_set_count_def equalsci_def)

text \<open>
  C9. With \<^verbatim>\<open><shun enabledcommands="ADMIN OPER PING PONG QUIT" cleanedcommands="AWAY PART QUIT">\<close>
  (and \<open>notifyuser\<close> left at its default), for every shunned local user and a command that
  has not been validated yet: a command that is not enabled is denied and the user gets
  the notice \<open>*** <command> command not processed ...\<close>, in particular WHOIS; QUIT with
  parameters passes through with its parameters cleared and no notice.
\<close>

theorem shun_gating:
  assumes "readString tag ''enabledcommands'' False = Some ''ADMIN OPER PING PONG QUIT''"
    and "readString tag ''cleanedcommands'' False = Some ''AWAY PART QUIT''"
    and "readString tag ''notifyuser'' False = None"
    and "IsShunned (ReadConfig tag) user"
  shows "(\<not> flat_set_count [''ADMIN'', ''OPER'', ''PING'', ''PONG'', ''QUIT''] command \<longrightarrow>
          OnPreCommand (ReadConfig tag) command parameters user False =
            (MOD_RES_DENY, parameters,
             [''*** '' @ command @ '' command not processed as you have been blocked from issuing commands.'']))
       \<and> OnPreCommand (ReadConfig tag) ''WHOIS'' parameters user False =
            (MOD_RES_DENY, parameters,
             [''*** WHOIS command not processed as you have been blocked from issuing commands.''])
       \<and> (params parameters \<noteq> [] \<longrightarrow>
            (\<exists>parameters'. OnPreCommand (ReadConfig tag) ''QUIT'' parameters user False =
                (MOD_RES_PASSTHRU, parameters', [])
              \<and> params parameters' = []))"
  using assms(4) ReadConfig_shun[OF assms(1-3)] count_WHOIS
  by (simp add: OnPreCommand_def Let_def)

definition shun_tag :: ConfigTag where
  "shun_tag = \<lparr> tag_name = ''shun'',
       tag_source = \<lparr> pos_name = ''inspircd.conf'', pos_line = 1, pos_column = 1 \<rparr>,
       tag_items = [(''cleanedcommands'', ''AWAY PART QUIT''),
                    (''enabledcommands'', ''ADMIN OPER PING PONG QUIT'')] \<rparr>"

definition shunned_user :: LocalUser where
  "shunned_user = \<lparr> registered = REG_ALL, HasPrivPermission = (\<lambda>p. False),
       MatchesLine = (\<lambda>kind. kind = ''SHUN'') \<rparr>"

lemma shun_tag_reads:
  "readString shun_tag ''enabledcommands'' False = Some ''ADMIN OPER PING PONG QUIT''"
  "readString shun_tag ''cleanedcommands'' False = Some ''AWAY PART QUIT''"
  "readString shun_tag ''notifyuser'' False = None"
  by (simp_all add: flat_set_count_def shun_tag_def readString_def equalsci_def)

lemma shunned_user_IsShunned: "IsShunned (ReadConfig shun_tag) shunned_user"
  by (simp add: IsShunned_def shunned_user_def)

theorem shun_gating_witness:
  "OnPreCommand (ReadConfig shun_tag) ''WHOIS'' \<lparr> params = [''foo''], tags = [] \<rparr> shunned_user False =
     (MOD_RES_DENY, \<lparr> params = [''foo''], tags = [] \<rparr>,
      [''*** WHOIS command not processed as you have been blocked from issuing commands.''])
   \<and> OnPreCommand (ReadConfig shun_tag) ''QUIT'' \<lparr> params = [''bye bye''], tags = [] \<rparr> shunned_user False =
     (MOD_RES_PASSTHRU, \<lparr> params = [], tags = [] \<rparr>, [])"
proof -
  have q: "OnPreCommand (ReadConfig shun_tag) ''QUIT'' \<lparr> params = [''bye bye''], tags = [] \<rparr> shunned_user False =
     (MOD_RES_PASSTHRU, \<lparr> params = [], tags = [] \<rparr>, [])"
    using shunned_user_IsShunned ReadConfig_shun[OF shun_tag_reads] count_WHOIS
    by (simp add: OnPreCommand_def Let_def getBool_def shun_tag_def readString_def ReadConfig_def
        equalsci_def)
  from shun_gating[OF shun_tag_reads shunned_user_IsShunned, of "''WHOIS''" "\<lparr> params = [''foo''], tags = [] \<rparr>"] q
  show ?thesis by simp
qed

section \<open>The configuration parser (configparser.cpp, struct Parser)\<close>

text \<open>
  The parse stack is shared by the parsers of all the files being read: the paths of the
  files that are open (\<open>reading\<close>), the variables of \<^verbatim>\<open><define>\<close>, the tags read so far
  (a multimap in the order of the tag names, tags of one name in the order they were
  added), the contents of
  \<^verbatim>\<open><files>\<close> and the error stream.
\<close>

record ParseStack =
  reading :: "string list"
  vars :: "string \<Rightarrow> string option"
  output_tags :: "(string \<times> ConfigTag) list"
  FilesOutput :: "string \<Rightarrow> string list option"
  errstr :: string

subsection \<open>Reading files into the cache (ParseStack::DoReadFile)\<close>

text \<open>
  \<^verbatim>\<open>fgets(linebuf, n + 1, file)\<close> reads at most \<open>n\<close> characters and stops after a
  linefeed; it returns the characters read and the rest of the file, and a null pointer
  (here no character) at the end of the file.
\<close>

fun fgets :: "nat \<Rightarrow> string \<Rightarrow> string \<times> string" where
  "fgets n [] = ([], [])"
| "fgets 0 (c # cs) = ([], c # cs)"
| "fgets (Suc n) (c # cs) =
     (if c = NL then ([c], cs) else (case fgets n cs of (l, r) \<Rightarrow> (c # l, r)))"

lemma fgets_length: "fgets n s = (l, r) \<Longrightarrow> length l + length r = length s"
  by (induction n s arbitrary: l r rule: fgets.induct) (auto split: if_splits prod.splits)

function read_lines :: "string \<Rightarrow> string list" where
  "read_lines s =
     (case fgets 5119 s of
        (linebuf, rest) \<Rightarrow>
          if linebuf = [] then []
          else (let str = takeWhile (\<lambda>c. c \<noteq> CHR 0x00) linebuf
                in if str = [] then [] else [if last str = NL then butlast str else str])
               @ read_lines rest)"
  by pat_completeness auto
termination
proof (relation "measure length", goal_cases)
  case 1
  show ?case by simp
next
  case (2 s linebuf rest)
  from fgets_length[of 5119 s linebuf rest] 2 show ?case by (cases linebuf) auto
qed

declare read_lines.simps [simp del]

definition DoReadFile ::
  "os \<Rightarrow> string \<Rightarrow> string \<Rightarrow> int \<Rightarrow> bool \<Rightarrow> ParseStack \<Rightarrow> (exn + unit) \<times> ParseStack" where
  "DoReadFile E key name flags exec st =
     (if flags AND FLAG_NO_INC \<noteq> 0
      then (Inl (CoreException (''Invalid <files> tag in file included with noinclude=''
                                @ [DQ] @ ''yes'' @ [DQ])), st)
      else if exec \<and> flags AND FLAG_NO_EXEC \<noteq> 0
      then (Inl (CoreException (''Invalid <execfiles> tag in file included with noexec=''
                                @ [DQ] @ ''yes'' @ [DQ])), st)
      else
        let path = PrependConfig E name
        in case (if exec then popen E name else fopen E path) of
             None \<Rightarrow>
               (Inl (CoreException (''Could not read '' @ [DQ] @ path @ [DQ] @ '' for '' @ [DQ] @ key
                                    @ [DQ] @ '' file'')), st)
           | Some content \<Rightarrow>
               (Inr (), st\<lparr> FilesOutput := (FilesOutput st)(key \<mapsto> read_lines content) \<rparr>))"

fun read_files ::
  "os \<Rightarrow> (string \<times> string) list \<Rightarrow> int \<Rightarrow> bool \<Rightarrow> ParseStack \<Rightarrow> (exn + unit) \<times> ParseStack" where
  "read_files E [] flags exec st = (Inr (), st)"
| "read_files E ((key, val) # items) flags exec st =
     (case DoReadFile E key val flags exec st of
        (Inl e, st') \<Rightarrow> (Inl e, st')
      | (Inr u, st') \<Rightarrow> read_files E items flags exec st')"

subsection \<open>The parser of one file\<close>

text \<open>
  A parser reads one file. \<open>conf\<close> is what is left to read of the file, \<open>ungot\<close> the
  character that was pushed back (\<^verbatim>\<open>-1\<close> in the source when there is none), \<open>tag\<close>
  the tag being read (a null pointer between tags).
\<close>

record Parser =
  stack :: ParseStack
  flags :: int
  conf :: string
  current :: FilePosition
  last_tag :: FilePosition
  tag :: "ConfigTag option"
  ungot :: "char option"
  mandatory_tag :: string

text \<open>
  \<^verbatim>\<open>next(eof_ok)\<close> returns the next character, or \<^verbatim>\<open>EOF\<close> (\<^term>\<open>None\<close>) at the
  end of the file if \<open>eof_ok\<close>; otherwise it throws there. A result is the exception
  or the value, with the parser as the call left it.
\<close>

definition next_ch :: "bool \<Rightarrow> Parser \<Rightarrow> (exn + char option) \<times> Parser" where
  "next_ch eof_ok p =
     (case ungot p of
        Some ch \<Rightarrow> (Inr (Some ch), p\<lparr> ungot := None \<rparr>)
      | None \<Rightarrow>
          (case conf p of
             [] \<Rightarrow>
               if \<not> eof_ok then (Inl (CoreException ''Unexpected end-of-file''), p)
               else (Inr None, p\<lparr> current := (current p)\<lparr> pos_column := pos_column (current p) + 1 \<rparr> \<rparr>)
           | ch # rest \<Rightarrow>
               if ch = NL
               then (Inr (Some ch), p\<lparr> conf := rest,
                       current := (current p)\<lparr> pos_line := pos_line (current p) + 1, pos_column := 1 \<rparr> \<rparr>)
               else (Inr (Some ch), p\<lparr> conf := rest,
                       current := (current p)\<lparr> pos_column := pos_column (current p) + 1 \<rparr> \<rparr>)))"

text \<open>\<^verbatim>\<open>next()\<close>, with \<open>eof_ok\<close> false, never returns \<^verbatim>\<open>EOF\<close>.\<close>

definition next_char :: "Parser \<Rightarrow> (exn + char) \<times> Parser" where
  "next_char p =
     (case next_ch False p of
        (Inl e, p') \<Rightarrow> (Inl e, p')
      | (Inr None, p') \<Rightarrow> (Inl (CoreException ''Unexpected end-of-file''), p')
      | (Inr (Some ch), p') \<Rightarrow> (Inr ch, p'))"

definition unget :: "char \<Rightarrow> Parser \<Rightarrow> (exn + unit) \<times> Parser" where
  "unget ch p =
     (if ungot p \<noteq> None then (Inl (CoreException ''INTERNAL ERROR: cannot unget twice''), p)
      else (Inr (), p\<lparr> ungot := Some ch \<rparr>))"

text \<open>The number of characters that \<open>next\<close> can still return: every loop reads one.\<close>

definition remaining :: "Parser \<Rightarrow> nat" where
  "remaining p = length (conf p) + (case ungot p of None \<Rightarrow> 0 | Some ch \<Rightarrow> 1)"

lemma next_char_remaining:
  "next_char p = (Inr ch, p') \<Longrightarrow> remaining p' < remaining p"
  by (auto simp: next_char_def next_ch_def remaining_def split: option.splits list.splits if_splits)

lemma next_char_remaining_sym:
  "(Inr ch, p') = next_char p \<Longrightarrow> remaining p' < remaining p"
  using next_char_remaining[of p ch p'] by simp

lemma next_ch_remaining:
  "next_ch eof_ok p = (Inr (Some ch), p') \<Longrightarrow> remaining p' < remaining p"
  by (auto simp: next_ch_def remaining_def split: option.splits list.splits if_splits)

function comment :: "Parser \<Rightarrow> (exn + unit) \<times> Parser" where
  "comment p =
     (case next_char p of
        (Inl e, p') \<Rightarrow> (Inl e, p')
      | (Inr ch, p') \<Rightarrow> if ch = NL then (Inr (), p') else comment p')"
  by pat_completeness auto
termination
  by (relation "measure remaining") (auto intro: next_char_remaining_sym)

declare comment.simps [simp del]

text \<open>The character classes of the C locale.\<close>

definition isalnum :: "char \<Rightarrow> bool" where
  "isalnum ch =
     (let n = (of_char ch :: nat)
      in (48 \<le> n \<and> n \<le> 57) \<or> (65 \<le> n \<and> n \<le> 90) \<or> (97 \<le> n \<and> n \<le> 122))"

definition isspace :: "char \<Rightarrow> bool" where
  "isspace ch = (let n = (of_char ch :: nat) in n = 32 \<or> (9 \<le> n \<and> n \<le> 13))"

definition wordchar :: "char \<Rightarrow> bool" where
  "wordchar ch = (isalnum ch \<or> ch = CHR ''-'' \<or> ch = CHR ''.'' \<or> ch = CHR ''_'')"

text \<open>
  \<open>nextword\<close> appends to the string it is given. Its two loops: skip the white space,
  then collect the word characters; the first character after the word is pushed back.
\<close>

function skip_space :: "Parser \<Rightarrow> (exn + char) \<times> Parser" where
  "skip_space p =
     (case next_char p of
        (Inl e, p') \<Rightarrow> (Inl e, p')
      | (Inr ch, p') \<Rightarrow> if isspace ch then skip_space p' else (Inr ch, p'))"
  by pat_completeness auto
termination
  by (relation "measure remaining") (auto intro: next_char_remaining_sym)

declare skip_space.simps [simp del]

function word_loop :: "char \<Rightarrow> Parser \<Rightarrow> string \<Rightarrow> (exn + char \<times> string) \<times> Parser" where
  "word_loop ch p rv =
     (if wordchar ch
      then (case next_char p of
              (Inl e, p') \<Rightarrow> (Inl e, p')
            | (Inr ch', p') \<Rightarrow> word_loop ch' p' (rv @ [ch]))
      else (Inr (ch, rv), p))"
  by pat_completeness auto
termination
  by (relation "measure (\<lambda>(ch, p, rv). remaining p)") (auto intro: next_char_remaining_sym)

declare word_loop.simps [simp del]

definition nextword :: "Parser \<Rightarrow> string \<Rightarrow> (exn + string) \<times> Parser" where
  "nextword p rv =
     (case skip_space p of
        (Inl e, p') \<Rightarrow> (Inl e, p')
      | (Inr ch, p') \<Rightarrow>
          (case word_loop ch p' rv of
             (Inl e, p'') \<Rightarrow> (Inl e, p'')
           | (Inr (ch', rv'), p'') \<Rightarrow>
               (case unget ch' p'' of
                  (Inl e, p3) \<Rightarrow> (Inl e, p3)
                | (Inr u, p3) \<Rightarrow> (Inr rv', p3))))"

subsection \<open>Entities in a value\<close>

text \<open>
  \<^verbatim>\<open>strtoul\<close> of the C library for an \<^verbatim>\<open>unsigned long\<close> of 64 bits: white space, an
  optional sign, for base 16 an optional \<^verbatim>\<open>0x\<close> before a digit, then the digits. It returns
  the value and the rest of the string (\<^verbatim>\<open>endptr\<close>); with no digit the value is 0 and the
  rest is the whole string; a value out of range is \<^verbatim>\<open>ULONG_MAX\<close>; a minus sign negates
  the value modulo \<open>2 ^ 64\<close>.
\<close>

definition ULONG_MAX :: nat where
  "ULONG_MAX = 18446744073709551615"

definition digit_value :: "char \<Rightarrow> nat option" where
  "digit_value ch =
     (let n = (of_char ch :: nat)
      in if 48 \<le> n \<and> n \<le> 57 then Some (n - 48)
         else if 97 \<le> n \<and> n \<le> 122 then Some (n - 87)
         else if 65 \<le> n \<and> n \<le> 90 then Some (n - 55)
         else None)"

definition is_digit :: "nat \<Rightarrow> char \<Rightarrow> bool" where
  "is_digit base ch = (case digit_value ch of Some d \<Rightarrow> d < base | None \<Rightarrow> False)"

fun digits_value :: "nat \<Rightarrow> nat \<Rightarrow> string \<Rightarrow> nat" where
  "digits_value base acc [] = acc"
| "digits_value base acc (ch # cs) =
     (case digit_value ch of
        Some d \<Rightarrow> digits_value base (acc * base + d) cs
      | None \<Rightarrow> acc)"

fun has_0x_prefix :: "string \<Rightarrow> bool" where
  "has_0x_prefix (c0 # c1 # c2 # cs) =
     (c0 = CHR ''0'' \<and> (c1 = CHR ''x'' \<or> c1 = CHR ''X'') \<and> is_digit 16 c2)"
| "has_0x_prefix cs = False"

definition strtoul :: "string \<Rightarrow> nat \<Rightarrow> nat \<times> string" where
  "strtoul nptr base =
     (let s = dropWhile isspace nptr;
          negative = (case s of [] \<Rightarrow> False | c # cs \<Rightarrow> c = CHR ''-'');
          s = (case s of [] \<Rightarrow> s | c # cs \<Rightarrow> if c = CHR ''-'' \<or> c = CHR ''+'' then cs else s);
          s = (if base = 16 \<and> has_0x_prefix s then drop 2 s else s);
          ds = takeWhile (is_digit base) s;
          v = digits_value base 0 ds
      in if ds = [] then (0, nptr)
         else (if v > ULONG_MAX then ULONG_MAX
               else if negative then (2 ^ 64 - v) mod 2 ^ 64
               else v,
               dropWhile (is_digit base) s))"

text \<open>
  The body of the \<^verbatim>\<open>if (ch == '&')\<close> branch of \<open>kv\<close> after the name has been read: the
  text that the entity \<open>&varname;\<close> stands for, or the exception.
\<close>

definition expand_entity :: "os \<Rightarrow> Parser \<Rightarrow> string \<Rightarrow> exn + string" where
  "expand_entity E p varname =
     (if varname = [] then Inl (CoreException ''Empty XML entity reference'')
      else if char_at varname 0 = CHR ''#''
              \<and> (length varname = 1 \<or> (length varname = 2 \<and> char_at varname 1 = CHR ''x''))
      then Inl (CoreException ''Empty numeric character reference'')
      else if char_at varname 0 = CHR ''#''
      then (case (if char_at varname 1 = CHR ''x'' then strtoul (drop 2 varname) 16
                  else strtoul (drop 1 varname) 10) of
              (lvalue, endptr) \<Rightarrow>
                if endptr \<noteq> [] \<or> lvalue > 255
                then Inl (CoreException (''Invalid numeric character reference '' @ [CHR 0x27]
                                         @ ''&'' @ varname @ '';'' @ [CHR 0x27]))
                else Inr [char_of lvalue])
      else if take 4 varname = ''env.''
      then (if flags p AND FLAG_NO_ENV \<noteq> 0
            then Inl (CoreException (''XML environment entity reference in file included with noenv=''
                                     @ [DQ] @ ''yes'' @ [DQ]))
            else (case getenv E (drop 4 varname) of
                    None \<Rightarrow> Inl (CoreException (''Undefined XML environment entity reference ''
                                                @ [CHR 0x27] @ ''&'' @ varname @ '';'' @ [CHR 0x27]))
                  | Some envstr \<Rightarrow> Inr envstr))
      else (case vars (stack p) varname of
              None \<Rightarrow> Inl (CoreException (''Undefined XML entity reference '' @ [CHR 0x27]
                                          @ ''&'' @ varname @ '';'' @ [CHR 0x27]))
            | Some var \<Rightarrow> Inr var))"

text \<open>The loop that reads the name of an entity, up to the semicolon.\<close>

function entity_name :: "Parser \<Rightarrow> string \<Rightarrow> string \<Rightarrow> (exn + string) \<times> Parser" where
  "entity_name p key varname =
     (case next_char p of
        (Inl e, p') \<Rightarrow> (Inl e, p')
      | (Inr ch, p') \<Rightarrow>
          if wordchar ch \<or> (varname = [] \<and> ch = CHR ''#'') then entity_name p' key (varname @ [ch])
          else if ch = CHR '';'' then (Inr varname, p')
          else (case tag p' of
                  None \<Rightarrow> (Inl NullDereference, p')
                | Some t \<Rightarrow>
                    (Inl (CoreException ''Parse error''),
                     p'\<lparr> stack := (stack p')\<lparr> errstr := errstr (stack p')
                          @ ''Invalid XML entity name in value of <'' @ tag_name t @ '':'' @ key @ ''>'' @ [NL]
                          @ ''To include an ampersand or quote, use &amp; or &quot;'' @ [NL] \<rparr> \<rparr>)))"
  by pat_completeness auto
termination
  by (relation "measure (\<lambda>(p, key, varname). remaining p)") (auto intro: next_char_remaining_sym)

declare entity_name.simps [simp del]

lemma entity_name_remaining:
  "entity_name p key varname = (Inr v, p') \<Longrightarrow> remaining p' < remaining p"
proof (induction p key varname rule: entity_name.induct)
  case (1 p key varname)
  obtain r p1 where n: "next_char p = (r, p1)" by (cases "next_char p")
  show ?case
  proof (cases r)
    case (Inl e)
    with 1 n show ?thesis by (simp add: entity_name.simps[of p])
  next
    case (Inr ch)
    note lt = next_char_remaining[OF n[unfolded Inr]]
    show ?thesis
    proof (cases "wordchar ch \<or> (varname = [] \<and> ch = CHR ''#'')")
      case True
      with 1 n Inr have "entity_name p1 key (varname @ [ch]) = (Inr v, p')"
        by (simp add: entity_name.simps[of p])
      from "1.IH"[OF n[symmetric] Inr True this] lt show ?thesis by simp
    next
      case False
      with 1 n Inr lt show ?thesis
        by (auto simp add: entity_name.simps[of p] split: if_splits option.splits)
    qed
  qed
qed

text \<open>The loop of \<open>kv\<close> that reads the value, after the opening quote.\<close>

function kv_value :: "os \<Rightarrow> Parser \<Rightarrow> string \<Rightarrow> string \<Rightarrow> (exn + string) \<times> Parser" where
  "kv_value E p key val =
     (case next_char p of
        (Inl e, p1) \<Rightarrow> (Inl e, p1)
      | (Inr ch, p1) \<Rightarrow>
          if ch = CHR ''&''
          then (case entity_name p1 key [] of
                  (Inl e, p2) \<Rightarrow> (Inl e, p2)
                | (Inr varname, p2) \<Rightarrow>
                    (case expand_entity E p2 varname of
                       Inl e \<Rightarrow> (Inl e, p2)
                     | Inr str \<Rightarrow> kv_value E p2 key (val @ str)))
          else if ch = DQ then (Inr val, p1)
          else if ch \<noteq> CR then kv_value E p1 key (val @ [ch])
          else kv_value E p1 key val)"
  by pat_completeness auto
termination
proof (relation "measure (\<lambda>(E, p, key, val). remaining p)", goal_cases)
  case 1
  show ?case by simp
next
  case (2 E p key val x1 p1 ch x2 p2 varname str)
  from next_char_remaining_sym[of ch p1 p] 2 have "remaining p1 < remaining p" by simp
  moreover from entity_name_remaining[of p1 key "[]" varname p2] 2
  have "remaining p2 < remaining p1" by simp
  ultimately show ?case by simp
next
  case (3 E p key val x1 p1 ch)
  from next_char_remaining_sym[of ch p1 p] 3 show ?case by simp
next
  case (4 E p key val x1 p1 ch)
  from next_char_remaining_sym[of ch p1 p] 4 show ?case by simp
qed

declare kv_value.simps [simp del]

subsection \<open>Keys and values, tags\<close>

lemma next_char_ungot: "next_char p = (Inr ch, p') \<Longrightarrow> ungot p' = None"
  by (auto simp: next_char_def next_ch_def split: option.splits list.splits if_splits)

lemma comment_remaining: "comment p = (Inr u, p') \<Longrightarrow> remaining p' < remaining p"
proof (induction p rule: comment.induct)
  case (1 p)
  obtain r p1 where n: "next_char p = (r, p1)" by (cases "next_char p")
  show ?case
  proof (cases r)
    case (Inl e)
    with 1 n show ?thesis by (simp add: comment.simps[of p])
  next
    case (Inr ch)
    note lt = next_char_remaining[OF n[unfolded Inr]]
    show ?thesis
    proof (cases "ch = NL")
      case True
      with 1 n Inr lt show ?thesis by (simp add: comment.simps[of p])
    next
      case False
      with 1 n Inr have "comment p1 = (Inr u, p')" by (simp add: comment.simps[of p])
      from "1.IH"[OF n[symmetric] Inr False this] lt show ?thesis by simp
    qed
  qed
qed

lemma skip_space_remaining:
  "skip_space p = (Inr c, p') \<Longrightarrow> remaining p' < remaining p \<and> ungot p' = None"
proof (induction p rule: skip_space.induct)
  case (1 p)
  obtain r p1 where n: "next_char p = (r, p1)" by (cases "next_char p")
  show ?case
  proof (cases r)
    case (Inl e)
    with 1 n show ?thesis by (simp add: skip_space.simps[of p])
  next
    case (Inr ch)
    note lt = next_char_remaining[OF n[unfolded Inr]] and ug = next_char_ungot[OF n[unfolded Inr]]
    show ?thesis
    proof (cases "isspace ch")
      case False
      with 1 n Inr lt ug show ?thesis by (simp add: skip_space.simps[of p])
    next
      case True
      with 1 n Inr have "skip_space p1 = (Inr c, p')" by (simp add: skip_space.simps[of p])
      from "1.IH"[OF n[symmetric] Inr True this] lt show ?thesis by simp
    qed
  qed
qed

lemma word_loop_remaining:
  "word_loop ch p rv = (Inr x, p') \<Longrightarrow> remaining p' \<le> remaining p \<and> (ungot p = None \<longrightarrow> ungot p' = None)"
proof (induction ch p rv rule: word_loop.induct)
  case (1 ch p rv)
  show ?case
  proof (cases "wordchar ch")
    case False
    with 1 show ?thesis by (simp add: word_loop.simps[of ch p])
  next
    case True
    obtain r p1 where n: "next_char p = (r, p1)" by (cases "next_char p")
    show ?thesis
    proof (cases r)
      case (Inl e)
      with 1 n True show ?thesis by (simp add: word_loop.simps[of ch p])
    next
      case (Inr ch')
      note lt = next_char_remaining[OF n[unfolded Inr]] and ug = next_char_ungot[OF n[unfolded Inr]]
      from 1 n Inr True have "word_loop ch' p1 (rv @ [ch]) = (Inr x, p')"
        by (simp add: word_loop.simps[of ch p])
      from "1.IH"[OF True n[symmetric] Inr this] lt ug show ?thesis by simp
    qed
  qed
qed

lemma nextword_remaining:
  assumes nw: "nextword p rv = (Inr w, p')"
  shows "remaining p' \<le> remaining p"
proof -
  obtain r1 p1 where s: "skip_space p = (r1, p1)" by (cases "skip_space p")
  show ?thesis
  proof (cases r1)
    case (Inl e)
    with nw s show ?thesis by (simp add: nextword_def)
  next
    case ch: (Inr ch)
    obtain r2 p2 where wl: "word_loop ch p1 rv = (r2, p2)" by (cases "word_loop ch p1 rv")
    show ?thesis
    proof (cases r2)
      case (Inl e)
      with nw s ch wl show ?thesis by (simp add: nextword_def)
    next
      case x: (Inr x)
      obtain ch' rv' where x': "x = (ch', rv')" by (cases x)
      from skip_space_remaining[OF s[unfolded ch]] word_loop_remaining[OF wl[unfolded x]]
      have lt: "remaining p2 < remaining p" and ug: "ungot p2 = None" by auto
      from ug have u: "unget ch' p2 = (Inr (), p2\<lparr> ungot := Some ch' \<rparr>)"
        by (simp add: unget_def)
      with nw s ch wl x x' have "p' = p2\<lparr> ungot := Some ch' \<rparr>"
        by (simp add: nextword_def)
      with lt ug show ?thesis by (simp add: remaining_def)
    qed
  qed
qed

lemma kv_value_remaining:
  "kv_value E p key val = (Inr v, p') \<Longrightarrow> remaining p' < remaining p"
proof (induction E p key val rule: kv_value.induct)
  case (1 E p key val)
  obtain r p1 where n: "next_char p = (r, p1)" by (cases "next_char p")
  show ?case
  proof (cases r)
    case (Inl e)
    with 1 n show ?thesis by (simp add: kv_value.simps[of E p])
  next
    case (Inr ch)
    note lt = next_char_remaining[OF n[unfolded Inr]]
    consider (amp) "ch = CHR ''&''" | (quote) "ch \<noteq> CHR ''&''" "ch = DQ"
      | (plain) "ch \<noteq> CHR ''&''" "ch \<noteq> DQ" "ch \<noteq> CR" | (cr) "ch \<noteq> CHR ''&''" "ch \<noteq> DQ" "ch = CR"
      by blast
    then show ?thesis
    proof cases
      case amp
      obtain r2 p2 where en: "entity_name p1 key [] = (r2, p2)" by (cases "entity_name p1 key []")
      show ?thesis
      proof (cases r2)
        case (Inl e)
        with 1 n Inr amp en show ?thesis by (simp add: kv_value.simps[of E p])
      next
        case varname: (Inr varname)
        note lt2 = entity_name_remaining[OF en[unfolded varname]]
        show ?thesis
        proof (cases "expand_entity E p2 varname")
          case (Inl e)
          with 1 n Inr amp en varname show ?thesis by (simp add: kv_value.simps[of E p])
        next
          case str: (Inr str)
          with 1 n Inr amp en varname have "kv_value E p2 key (val @ str) = (Inr v, p')"
            by (simp add: kv_value.simps[of E p])
          from "1.IH"(1)[OF n[symmetric] Inr amp en[symmetric] varname str this] lt lt2
          show ?thesis by simp
        qed
      qed
    next
      case quote
      with 1 n Inr lt show ?thesis by (simp add: kv_value.simps[of E p])
    next
      case plain
      with 1 n Inr have "kv_value E p1 key (val @ [ch]) = (Inr v, p')"
        by (simp add: kv_value.simps[of E p])
      from "1.IH"(2)[OF n[symmetric] Inr plain this] lt show ?thesis by simp
    next
      case cr
      with 1 n Inr have "kv_value E p1 key val = (Inr v, p')"
        by (simp add: kv_value.simps[of E p])
      from "1.IH"(3)[OF n[symmetric] Inr cr(1,2) _ this] cr lt show ?thesis by simp
    qed
  qed
qed

text \<open>
  \<open>kv\<close> reads one \<open>key="value"\<close> of the open tag and returns whether the tag goes on.
  The items of a tag compare their keys without regard to case, so a key that differs
  from an earlier one only in case is a duplicate.
\<close>

definition kv :: "os \<Rightarrow> Parser \<Rightarrow> (exn + bool) \<times> Parser" where
  "kv E p =
     (case nextword p [] of
        (Inl e, p1) \<Rightarrow> (Inl e, p1)
      | (Inr key, p1) \<Rightarrow>
          (case next_char p1 of
             (Inl e, p2) \<Rightarrow> (Inl e, p2)
           | (Inr ch, p2) \<Rightarrow>
               if ch = CHR ''>'' \<and> key = [] then (Inr False, p2)
               else if ch = CHR ''#'' \<and> key = []
               then (case comment p2 of
                       (Inl e, p3) \<Rightarrow> (Inl e, p3)
                     | (Inr u, p3) \<Rightarrow> (Inr True, p3))
               else if ch \<noteq> CHR ''=''
               then (Inl (CoreException (''Invalid character '' @ [ch] @ '' in key ('' @ key @ '')'')), p2)
               else
                 (case next_char p2 of
                    (Inl e, p3) \<Rightarrow> (Inl e, p3)
                  | (Inr ch, p3) \<Rightarrow>
                      (case tag p3 of
                         None \<Rightarrow> (Inl NullDereference, p3)
                       | Some t \<Rightarrow>
                           if ch \<noteq> DQ
                           then (Inl (CoreException (''Invalid character in value of <'' @ tag_name t
                                                     @ '':'' @ key @ ''>'')), p3)
                           else
                             (case kv_value E p3 key [] of
                                (Inl e, p4) \<Rightarrow> (Inl e, p4)
                              | (Inr val, p4) \<Rightarrow>
                                  (case tag p4 of
                                     None \<Rightarrow> (Inl NullDereference, p4)
                                   | Some t \<Rightarrow>
                                       if \<exists>item \<in> set (tag_items t). equalsci (fst item) key
                                       then (Inl (CoreException (''Duplicate key '' @ [CHR 0x27] @ key
                                                                 @ [CHR 0x27] @ '' found'')), p4)
                                       else (Inr True,
                                             p4\<lparr> tag := Some (t\<lparr> tag_items := flat_map_insert key val (tag_items t) \<rparr>) \<rparr>)))))))"

lemma kv_remaining:
  assumes kv: "kv E p = (Inr b, p')"
  shows "remaining p' < remaining p"
proof -
  obtain r1 p1 where w: "nextword p [] = (r1, p1)" by (cases "nextword p []")
  show ?thesis
  proof (cases r1)
    case (Inl e)
    with kv w show ?thesis by (simp add: kv_def)
  next
    case key: (Inr key)
    note le1 = nextword_remaining[OF w[unfolded key]]
    obtain r2 p2 where n: "next_char p1 = (r2, p2)" by (cases "next_char p1")
    show ?thesis
    proof (cases r2)
      case (Inl e)
      with kv w key n show ?thesis by (simp add: kv_def)
    next
      case ch: (Inr ch)
      from le1 next_char_remaining[OF n[unfolded ch]] have lt: "remaining p2 < remaining p" by simp
      consider (close) "ch = CHR ''>'' \<and> key = []"
        | (hash) "\<not> (ch = CHR ''>'' \<and> key = [])" "ch = CHR ''#'' \<and> key = []"
        | (eq) "\<not> (ch = CHR ''>'' \<and> key = [])" "\<not> (ch = CHR ''#'' \<and> key = [])" "ch = CHR ''=''"
        | (bad) "\<not> (ch = CHR ''>'' \<and> key = [])" "\<not> (ch = CHR ''#'' \<and> key = [])" "ch \<noteq> CHR ''=''"
        by blast
      then show ?thesis
      proof cases
        case close
        with kv w key n ch lt show ?thesis by (simp add: kv_def)
      next
        case hash
        obtain r3 p3 where c: "comment p2 = (r3, p3)" by (cases "comment p2")
        show ?thesis
        proof (cases r3)
          case (Inl e)
          with kv w key n ch hash c show ?thesis by (simp add: kv_def)
        next
          case (Inr u)
          with kv w key n ch hash c have "p' = p3" by (simp add: kv_def)
          with comment_remaining[OF c[unfolded Inr]] lt show ?thesis by simp
        qed
      next
        case bad
        with kv w key n ch show ?thesis by (simp add: kv_def)
      next
        case eq
        obtain r3 p3 where n3: "next_char p2 = (r3, p3)" by (cases "next_char p2")
        show ?thesis
        proof (cases r3)
          case (Inl e)
          with kv w key n ch eq n3 show ?thesis by (simp add: kv_def)
        next
          case ch3: (Inr ch3)
          note lt3 = next_char_remaining[OF n3[unfolded ch3]]
          show ?thesis
          proof (cases "tag p3")
            case None
            with kv w key n ch eq n3 ch3 show ?thesis by (simp add: kv_def)
          next
            case t3: (Some t3)
            show ?thesis
            proof (cases "ch3 = DQ")
              case False
              with kv w key n ch eq n3 ch3 t3 show ?thesis by (simp add: kv_def)
            next
              case True
              obtain r4 p4 where v: "kv_value E p3 key [] = (r4, p4)"
                by (cases "kv_value E p3 key []")
              show ?thesis
              proof (cases r4)
                case (Inl e)
                with kv w key n ch eq n3 ch3 t3 True v show ?thesis by (simp add: kv_def)
              next
                case val: (Inr val)
                note lt4 = kv_value_remaining[OF v[unfolded val]]
                show ?thesis
                proof (cases "tag p4")
                  case None
                  with kv w key n ch eq n3 ch3 t3 True v val show ?thesis by (simp add: kv_def)
                next
                  case (Some t4)
                  with kv w key n ch eq n3 ch3 t3 True v val
                  have "remaining p' = remaining p4"
                    by (auto simp add: kv_def remaining_def split: if_splits)
                  with lt lt3 lt4 show ?thesis by simp
                qed
              qed
            qed
          qed
        qed
      qed
    qed
  qed
qed

function kv_loop :: "os \<Rightarrow> Parser \<Rightarrow> (exn + unit) \<times> Parser" where
  "kv_loop E p =
     (case kv E p of
        (Inl e, p') \<Rightarrow> (Inl e, p')
      | (Inr b, p') \<Rightarrow> if b then kv_loop E p' else (Inr (), p'))"
  by pat_completeness auto
termination
proof (relation "measure (\<lambda>(E, p). remaining p)", goal_cases)
  case 1
  show ?case by simp
next
  case (2 E p x1 p' b)
  from kv_remaining[of E p b p'] 2 show ?case by simp
qed

declare kv_loop.simps [simp del]

lemma kv_loop_remaining: "kv_loop E p = (Inr u, p') \<Longrightarrow> remaining p' < remaining p"
proof (induction E p rule: kv_loop.induct)
  case (1 E p)
  obtain r p1 where k: "kv E p = (r, p1)" by (cases "kv E p")
  show ?case
  proof (cases r)
    case (Inl e)
    with 1 k show ?thesis by (simp add: kv_loop.simps[of E p])
  next
    case (Inr b)
    note lt = kv_remaining[OF k[unfolded Inr]]
    show ?thesis
    proof (cases b)
      case False
      with 1 k Inr lt show ?thesis by (simp add: kv_loop.simps[of E p])
    next
      case True
      with 1 k Inr have "kv_loop E p1 = (Inr u, p')" by (simp add: kv_loop.simps[of E p])
      from "1.IH"[OF k[symmetric] Inr True this] lt show ?thesis by simp
    qed
  qed
qed

subsection \<open>Tags and files\<close>

text \<open>
  \<open>dotag\<close> reads a tag after its \<open><\<close> and acts on it; \<open>tag_action\<close> is the chain of
  \<^verbatim>\<open>if (equalsci(name, ...))\<close> at its end, on the stack. \<open>ParseFile\<close> stands for
  \<^verbatim>\<open>ParseStack::ParseFile\<close>, which an \<^verbatim>\<open><include>\<close> calls again.
\<close>

definition tag_action ::
  "ParseStack include_fn \<Rightarrow> os \<Rightarrow> string \<Rightarrow> ConfigTag \<Rightarrow> int \<Rightarrow> ParseStack \<Rightarrow> (exn + unit) \<times> ParseStack" where
  "tag_action ParseFile E name t myflags st =
     (if equalsci name ''include'' then DoInclude ParseFile E t myflags st
      else if equalsci name ''files'' then read_files E (tag_items t) myflags False st
      else if equalsci name ''execfiles'' then read_files E (tag_items t) myflags True st
      else if equalsci name ''define''
      then (let varname = getString t ''name'' [] 0 UINT32_MAX;
                val = getString t ''value'' [] 0 UINT32_MAX
            in if varname = []
               then (Inl (CoreException ''Variable definition must include variable name''), st)
               else (Inr (), st\<lparr> vars := (vars st)(varname \<mapsto> val) \<rparr>))
      else (Inr (), st\<lparr> output_tags := flat_map_insert name t (output_tags st) \<rparr>))"

definition dotag :: "ParseStack include_fn \<Rightarrow> os \<Rightarrow> Parser \<Rightarrow> (exn + unit) \<times> Parser" where
  "dotag ParseFile E p0 =
     (let p = p0\<lparr> last_tag := current p0 \<rparr>
      in case nextword p [] of
           (Inl e, p1) \<Rightarrow> (Inl e, p1)
         | (Inr name, p1) \<Rightarrow>
             (case next_char p1 of
                (Inl e, p2) \<Rightarrow> (Inl e, p2)
              | (Inr spc, p2) \<Rightarrow>
                  (case (if spc = CHR ''>'' then unget spc p2
                         else if \<not> isspace spc
                         then (Inl (CoreException ''Invalid character in tag name''), p2)
                         else (Inr (), p2)) of
                     (Inl e, p3) \<Rightarrow> (Inl e, p3)
                   | (Inr u, p3) \<Rightarrow>
                       if name = [] then (Inl (CoreException ''Empty tag name''), p3)
                       else
                         (case kv_loop E (p3\<lparr> tag := Some \<lparr> tag_name = name, tag_source = last_tag p3,
                                                            tag_items = [] \<rparr> \<rparr>) of
                            (Inl e, p4) \<Rightarrow> (Inl e, p4)
                          | (Inr u, p4) \<Rightarrow>
                              let p5 = (if name = mandatory_tag p4 then p4\<lparr> mandatory_tag := [] \<rparr> else p4)
                              in case tag p5 of
                                   None \<Rightarrow> (Inl NullDereference, p5)
                                 | Some t \<Rightarrow>
                                     (case tag_action ParseFile E name t (flags p5) (stack p5) of
                                        (Inl e, st) \<Rightarrow> (Inl e, p5\<lparr> stack := st \<rparr>)
                                      | (Inr u, st) \<Rightarrow> (Inr (), p5\<lparr> stack := st, tag := None \<rparr>))))))"

lemma dotag_remaining:
  assumes dt: "dotag ParseFile E p0 = (Inr u, p')"
  shows "remaining p' \<le> remaining p0"
proof -
  define p where "p = p0\<lparr> last_tag := current p0 \<rparr>"
  have rp: "remaining p = remaining p0" by (simp add: p_def remaining_def)
  obtain r1 p1 where w: "nextword p [] = (r1, p1)" by (cases "nextword p []")
  show ?thesis
  proof (cases r1)
    case (Inl e)
    with dt w show ?thesis by (simp add: dotag_def p_def[symmetric])
  next
    case name: (Inr name)
    note le1 = nextword_remaining[OF w[unfolded name]]
    obtain r2 p2 where n: "next_char p1 = (r2, p2)" by (cases "next_char p1")
    show ?thesis
    proof (cases r2)
      case (Inl e)
      with dt w name n show ?thesis by (simp add: dotag_def p_def[symmetric])
    next
      case spc: (Inr spc)
      note lt2 = next_char_remaining[OF n[unfolded spc]] and ug2 = next_char_ungot[OF n[unfolded spc]]
      obtain r3 p3 where g: "(if spc = CHR ''>'' then unget spc p2
                         else if \<not> isspace spc
                         then (Inl (CoreException ''Invalid character in tag name''), p2)
                         else (Inr (), p2)) = (r3, p3)"
        by (cases "(if spc = CHR ''>'' then unget spc p2
                         else if \<not> isspace spc
                         then (Inl (CoreException ''Invalid character in tag name''), p2)
                         else (Inr (), p2))")
      show ?thesis
      proof (cases r3)
        case (Inl e)
        with dt w name n spc g show ?thesis by (simp add: dotag_def p_def[symmetric])
      next
        case u3: (Inr u3)
        from g u3 ug2 have le3: "remaining p3 \<le> remaining p2 + 1"
          by (auto simp: unget_def remaining_def split: if_splits)
        show ?thesis
        proof (cases "name = []")
          case True
          with dt w name n spc g u3 show ?thesis by (simp add: dotag_def p_def[symmetric])
        next
          case False
          define p3' where "p3' = p3\<lparr> tag := Some \<lparr> tag_name = name, tag_source = last_tag p3,
                                                            tag_items = [] \<rparr> \<rparr>"
          have r3': "remaining p3' = remaining p3" by (simp add: p3'_def remaining_def)
          obtain r4 p4 where k: "kv_loop E p3' = (r4, p4)" by (cases "kv_loop E p3'")
          show ?thesis
          proof (cases r4)
            case (Inl e)
            with dt w name n spc g u3 False k show ?thesis
              by (simp add: dotag_def p_def[symmetric] p3'_def[symmetric])
          next
            case u4: (Inr u4)
            note lt4 = kv_loop_remaining[OF k[unfolded u4]]
            define p5 where "p5 = (if name = mandatory_tag p4 then p4\<lparr> mandatory_tag := [] \<rparr> else p4)"
            have r5: "remaining p5 = remaining p4" by (simp add: p5_def remaining_def)
            show ?thesis
            proof (cases "tag p5")
              case None
              with dt w name n spc g u3 False k u4 show ?thesis
                by (simp add: dotag_def p_def[symmetric] p3'_def[symmetric] Let_def p5_def[symmetric])
            next
              case (Some t)
              with dt w name n spc g u3 False k u4 have "remaining p' = remaining p5"
                by (auto simp add: dotag_def p_def[symmetric] p3'_def[symmetric] Let_def p5_def[symmetric]
                    remaining_def split: prod.splits sum.splits)
              with r5 lt4 r3' le3 lt2 le1 rp show ?thesis by simp
            qed
          qed
        qed
      qed
    qed
  qed
qed

text \<open>The loop of \<open>outer_parse\<close>, and \<open>outer_parse\<close> with its \<^verbatim>\<open>catch\<close>.\<close>

function outer_loop :: "ParseStack include_fn \<Rightarrow> os \<Rightarrow> Parser \<Rightarrow> (exn + unit) \<times> Parser" where
  "outer_loop ParseFile E p =
     (case next_ch True p of
        (Inl e, p') \<Rightarrow> (Inl e, p')
      | (Inr None, p') \<Rightarrow>
          if mandatory_tag p' \<noteq> []
          then (Inl (CoreException (''Mandatory tag '' @ [DQ] @ mandatory_tag p' @ [DQ] @ '' not found'')), p')
          else (Inr (), p')
      | (Inr (Some ch), p') \<Rightarrow>
          if ch = CHR ''#''
          then (case comment p' of
                  (Inl e, p'') \<Rightarrow> (Inl e, p'')
                | (Inr u, p'') \<Rightarrow> outer_loop ParseFile E p'')
          else if ch = CHR ''<''
          then (case dotag ParseFile E p' of
                  (Inl e, p'') \<Rightarrow> (Inl e, p'')
                | (Inr u, p'') \<Rightarrow> outer_loop ParseFile E p'')
          else if ch = CHR '' '' \<or> ch = CR \<or> ch = TAB \<or> ch = NL then outer_loop ParseFile E p'
          else if ch = CHR 0xFE \<or> ch = CHR 0xFF
          then (Inl (CoreException ''Syntax error - start of tag expected''),
                p'\<lparr> stack := (stack p')\<lparr> errstr := errstr (stack p')
                      @ ''Do not save your files as UTF-16 or UTF-32, use UTF-8!'' @ [NL] \<rparr> \<rparr>)
          else (Inl (CoreException ''Syntax error - start of tag expected''), p'))"
  by pat_completeness auto
termination
proof (relation "measure (\<lambda>(ParseFile, E, p). remaining p)", goal_cases)
  case 1
  show ?case by simp
next
  case (2 ParseFile E p x1 p' x2 ch x1a p'' u)
  from next_ch_remaining[of True p ch p'] comment_remaining[of p' u p''] 2 show ?case by simp
next
  case (3 ParseFile E p x1 p' x2 ch x1a p'' u)
  from next_ch_remaining[of True p ch p'] dotag_remaining[of ParseFile E p' u p''] 3 show ?case by simp
next
  case (4 ParseFile E p x1 p' x2 ch)
  from next_ch_remaining[of True p ch p'] 4 show ?case by simp
qed

declare outer_loop.simps [simp del]

text \<open>\<^verbatim>\<open>ConvToStr\<close> of an unsigned number: its decimal digits.\<close>

function ConvToStr :: "nat \<Rightarrow> string" where
  "ConvToStr n =
     (if n < 10 then [''0123456789'' ! n]
      else ConvToStr (n div 10) @ [''0123456789'' ! (n mod 10)])"
  by pat_completeness auto
termination
  by (relation "measure id") auto

declare ConvToStr.simps [simp del]

definition outer_parse :: "ParseStack include_fn \<Rightarrow> os \<Rightarrow> Parser \<Rightarrow> (exn + bool) \<times> ParseStack" where
  "outer_parse ParseFile E p =
     (case outer_loop ParseFile E p of
        (Inr u, p') \<Rightarrow> (Inr True, stack p')
      | (Inl (CoreException reason), p') \<Rightarrow>
          (Inr False,
           (stack p')\<lparr> errstr := errstr (stack p') @ reason @ '' at '' @ pos_str E (current p')
               @ (case tag p' of
                    Some t \<Rightarrow> '' (inside tag '' @ tag_name t @ '' at line ''
                               @ ConvToStr (pos_line (tag_source t)) @ '')'' @ [NL]
                  | None \<Rightarrow> '' (last tag was on line '' @ ConvToStr (pos_line (last_tag p'))
                            @ '')'' @ [NL]) \<rparr>)
      | (Inl e, p') \<Rightarrow> (Inl e, stack p'))"

text \<open>
  \<^verbatim>\<open>ParseStack::ParseFile\<close>. \<open>nested\<close> is the \<open>ParseFile\<close> that the includes of this
  file call.
\<close>

definition ParseFile ::
  "ParseStack include_fn \<Rightarrow> os \<Rightarrow> string \<Rightarrow> int \<Rightarrow> string \<Rightarrow> bool \<Rightarrow> ParseStack
   \<Rightarrow> (exn + bool) \<times> ParseStack" where
  "ParseFile nested E path myflags mandatorytag isexec st =
     (if path \<in> set (reading st)
      then (Inl (CoreException ((if isexec then ''Executable '' else ''File '') @ path
                                @ '' is included recursively (looped inclusion)'')), st)
      else
        case (if isexec then popen E path else fopen E path) of
          None \<Rightarrow>
            if myflags AND FLAG_MISSING_OKAY \<noteq> 0 then (Inr True, st)
            else (Inl (CoreException (''Could not read '' @ [DQ] @ path @ [DQ] @ '' for include'')), st)
        | Some content \<Rightarrow>
            (case outer_parse nested E
                    \<lparr> stack = st\<lparr> reading := reading st @ [path] \<rparr>,
                      flags = myflags,
                      conf = content,
                      current = \<lparr> pos_name = path, pos_line = 1, pos_column = 0 \<rparr>,
                      last_tag = \<lparr> pos_name = path, pos_line = 0, pos_column = 0 \<rparr>,
                      tag = None,
                      ungot = None,
                      mandatory_tag = mandatorytag \<rparr> of
               (Inl e, st') \<Rightarrow> (Inl e, st')
             | (Inr ok, st') \<Rightarrow> (Inr ok, st'\<lparr> reading := butlast (reading st') \<rparr>)))"

text \<open>
  The recursion through included files: \<open>ParseFile_n n\<close> follows includes to depth
  \<open>n\<close>, and is \<open>Diverged\<close> below.
\<close>

primrec ParseFile_n :: "nat \<Rightarrow> os \<Rightarrow> ParseStack include_fn" where
  "ParseFile_n 0 E = (\<lambda>path myflags mandatorytag isexec st. (Inl Diverged, st))"
| "ParseFile_n (Suc n) E = ParseFile (ParseFile_n n E) E"

text \<open>A string contains another one when \<^verbatim>\<open>find\<close> returns a position.\<close>

definition contains :: "string \<Rightarrow> string \<Rightarrow> bool" where
  "contains s sub = (str_find s sub \<noteq> None)"

lemma starts_with_append: "starts_with (sub @ post) sub"
  by (induction sub) auto

lemma contains_append: "contains (pre @ sub @ post) sub"
proof (induction pre)
  case Nil
  show ?case
    using starts_with_append[of sub post]
    by (cases "sub @ post") (auto simp: contains_def)
next
  case (Cons c pre)
  then show ?case by (auto simp: contains_def)
qed

subsection \<open>The stack of open files\<close>

text \<open>
  The parser of a file changes the parse stack through \<open>tag_action\<close> and when it
  reports a bad entity name; only \<open>ParseFile\<close> changes the list of the open files.
\<close>

lemma next_ch_stack: "next_ch eof_ok p = (r, p') \<Longrightarrow> stack p' = stack p"
  by (auto simp: next_ch_def split: option.splits list.splits if_splits)

lemma next_char_stack: "next_char p = (r, p') \<Longrightarrow> stack p' = stack p"
  by (auto simp: next_char_def split: prod.splits sum.splits option.splits dest: next_ch_stack)

lemma unget_stack: "unget ch p = (r, p') \<Longrightarrow> stack p' = stack p"
  by (auto simp: unget_def split: if_splits)

lemma comment_stack: "comment p = (r, p') \<Longrightarrow> stack p' = stack p"
proof (induction p rule: comment.induct)
  case (1 p)
  obtain r1 p1 where n: "next_char p = (r1, p1)" by (cases "next_char p")
  note s1 = next_char_stack[OF n]
  show ?case
  proof (cases r1)
    case (Inl e)
    with 1 n s1 show ?thesis by (simp add: comment.simps[of p])
  next
    case (Inr ch)
    show ?thesis
    proof (cases "ch = NL")
      case True
      with 1 n Inr s1 show ?thesis by (simp add: comment.simps[of p])
    next
      case False
      with 1 n Inr have "comment p1 = (r, p')" by (simp add: comment.simps[of p])
      from "1.IH"[OF n[symmetric] Inr False this] s1 show ?thesis by simp
    qed
  qed
qed

lemma skip_space_stack: "skip_space p = (r, p') \<Longrightarrow> stack p' = stack p"
proof (induction p rule: skip_space.induct)
  case (1 p)
  obtain r1 p1 where n: "next_char p = (r1, p1)" by (cases "next_char p")
  note s1 = next_char_stack[OF n]
  show ?case
  proof (cases r1)
    case (Inl e)
    with 1 n s1 show ?thesis by (simp add: skip_space.simps[of p])
  next
    case (Inr ch)
    show ?thesis
    proof (cases "isspace ch")
      case False
      with 1 n Inr s1 show ?thesis by (simp add: skip_space.simps[of p])
    next
      case True
      with 1 n Inr have "skip_space p1 = (r, p')" by (simp add: skip_space.simps[of p])
      from "1.IH"[OF n[symmetric] Inr True this] s1 show ?thesis by simp
    qed
  qed
qed

lemma word_loop_stack: "word_loop ch p rv = (r, p') \<Longrightarrow> stack p' = stack p"
proof (induction ch p rv rule: word_loop.induct)
  case (1 ch p rv)
  show ?case
  proof (cases "wordchar ch")
    case False
    with 1 show ?thesis by (simp add: word_loop.simps[of ch p])
  next
    case True
    obtain r1 p1 where n: "next_char p = (r1, p1)" by (cases "next_char p")
    note s1 = next_char_stack[OF n]
    show ?thesis
    proof (cases r1)
      case (Inl e)
      with 1 n True s1 show ?thesis by (simp add: word_loop.simps[of ch p])
    next
      case (Inr ch')
      with 1 n True have "word_loop ch' p1 (rv @ [ch]) = (r, p')"
        by (simp add: word_loop.simps[of ch p])
      from "1.IH"[OF True n[symmetric] Inr this] s1 show ?thesis by simp
    qed
  qed
qed

lemma nextword_stack:
  assumes nw: "nextword p rv = (r, p')"
  shows "stack p' = stack p"
proof -
  obtain r1 p1 where s: "skip_space p = (r1, p1)" by (cases "skip_space p")
  note s1 = skip_space_stack[OF s]
  show ?thesis
  proof (cases r1)
    case (Inl e)
    with nw s s1 show ?thesis by (simp add: nextword_def)
  next
    case ch: (Inr ch)
    obtain r2 p2 where wl: "word_loop ch p1 rv = (r2, p2)" by (cases "word_loop ch p1 rv")
    note s2 = word_loop_stack[OF wl]
    show ?thesis
    proof (cases r2)
      case (Inl e)
      with nw s ch wl s1 s2 show ?thesis by (simp add: nextword_def)
    next
      case x: (Inr x)
      obtain ch' rv' where x': "x = (ch', rv')" by (cases x)
      obtain r3 p3 where u: "unget ch' p2 = (r3, p3)" by (cases "unget ch' p2")
      note s3 = unget_stack[OF u]
      from nw s ch wl x x' u have "p' = p3" by (cases r3) (simp_all add: nextword_def)
      with s1 s2 s3 show ?thesis by simp
    qed
  qed
qed

lemma entity_name_reading:
  "entity_name p key varname = (r, p') \<Longrightarrow> reading (stack p') = reading (stack p)"
proof (induction p key varname rule: entity_name.induct)
  case (1 p key varname)
  obtain r1 p1 where n: "next_char p = (r1, p1)" by (cases "next_char p")
  note s1 = next_char_stack[OF n]
  show ?case
  proof (cases r1)
    case (Inl e)
    with 1 n s1 show ?thesis by (simp add: entity_name.simps[of p])
  next
    case (Inr ch)
    show ?thesis
    proof (cases "wordchar ch \<or> (varname = [] \<and> ch = CHR ''#'')")
      case True
      with 1 n Inr have "entity_name p1 key (varname @ [ch]) = (r, p')"
        by (simp add: entity_name.simps[of p])
      from "1.IH"[OF n[symmetric] Inr True this] s1 show ?thesis by simp
    next
      case False
      with 1 n Inr s1 show ?thesis
        by (auto simp add: entity_name.simps[of p] split: if_splits option.splits)
    qed
  qed
qed

lemma kv_value_reading:
  "kv_value E p key val = (r, p') \<Longrightarrow> reading (stack p') = reading (stack p)"
proof (induction E p key val rule: kv_value.induct)
  case (1 E p key val)
  obtain r1 p1 where n: "next_char p = (r1, p1)" by (cases "next_char p")
  note s1 = next_char_stack[OF n]
  show ?case
  proof (cases r1)
    case (Inl e)
    with 1 n s1 show ?thesis by (simp add: kv_value.simps[of E p])
  next
    case (Inr ch)
    consider (amp) "ch = CHR ''&''" | (quote) "ch \<noteq> CHR ''&''" "ch = DQ"
      | (plain) "ch \<noteq> CHR ''&''" "ch \<noteq> DQ" "ch \<noteq> CR" | (cr) "ch \<noteq> CHR ''&''" "ch \<noteq> DQ" "ch = CR"
      by blast
    then show ?thesis
    proof cases
      case amp
      obtain r2 p2 where en: "entity_name p1 key [] = (r2, p2)" by (cases "entity_name p1 key []")
      note s2 = entity_name_reading[OF en]
      show ?thesis
      proof (cases r2)
        case (Inl e)
        with 1 n Inr amp en s1 s2 show ?thesis by (simp add: kv_value.simps[of E p])
      next
        case varname: (Inr varname)
        show ?thesis
        proof (cases "expand_entity E p2 varname")
          case (Inl e)
          with 1 n Inr amp en varname s1 s2 show ?thesis by (simp add: kv_value.simps[of E p])
        next
          case str: (Inr str)
          with 1 n Inr amp en varname have "kv_value E p2 key (val @ str) = (r, p')"
            by (simp add: kv_value.simps[of E p])
          from "1.IH"(1)[OF n[symmetric] Inr amp en[symmetric] varname str this] s1 s2
          show ?thesis by simp
        qed
      qed
    next
      case quote
      with 1 n Inr s1 show ?thesis by (simp add: kv_value.simps[of E p])
    next
      case plain
      with 1 n Inr have "kv_value E p1 key (val @ [ch]) = (r, p')"
        by (simp add: kv_value.simps[of E p])
      from "1.IH"(2)[OF n[symmetric] Inr plain this] s1 show ?thesis by simp
    next
      case cr
      with 1 n Inr have "kv_value E p1 key val = (r, p')"
        by (simp add: kv_value.simps[of E p])
      from "1.IH"(3)[OF n[symmetric] Inr cr(1,2) _ this] cr s1 show ?thesis by simp
    qed
  qed
qed

lemma kv_reading:
  assumes kv: "kv E p = (r, p')"
  shows "reading (stack p') = reading (stack p)"
proof -
  obtain r1 p1 where w: "nextword p [] = (r1, p1)" by (cases "nextword p []")
  note s1 = nextword_stack[OF w]
  show ?thesis
  proof (cases r1)
    case (Inl e)
    with kv w s1 show ?thesis by (simp add: kv_def)
  next
    case key: (Inr key)
    obtain r2 p2 where n: "next_char p1 = (r2, p2)" by (cases "next_char p1")
    note s2 = next_char_stack[OF n]
    show ?thesis
    proof (cases r2)
      case (Inl e)
      with kv w key n s1 s2 show ?thesis by (simp add: kv_def)
    next
      case ch: (Inr ch)
      consider (close) "ch = CHR ''>'' \<and> key = []"
        | (hash) "\<not> (ch = CHR ''>'' \<and> key = [])" "ch = CHR ''#'' \<and> key = []"
        | (eq) "\<not> (ch = CHR ''>'' \<and> key = [])" "\<not> (ch = CHR ''#'' \<and> key = [])" "ch = CHR ''=''"
        | (bad) "\<not> (ch = CHR ''>'' \<and> key = [])" "\<not> (ch = CHR ''#'' \<and> key = [])" "ch \<noteq> CHR ''=''"
        by blast
      then show ?thesis
      proof cases
        case close
        with kv w key n ch s1 s2 show ?thesis by (simp add: kv_def)
      next
        case hash
        obtain r3 p3 where c: "comment p2 = (r3, p3)" by (cases "comment p2")
        note s3 = comment_stack[OF c]
        from kv w key n ch hash c have "p' = p3" by (cases r3) (simp_all add: kv_def)
        with s1 s2 s3 show ?thesis by simp
      next
        case bad
        with kv w key n ch s1 s2 show ?thesis by (simp add: kv_def)
      next
        case eq
        obtain r3 p3 where n3: "next_char p2 = (r3, p3)" by (cases "next_char p2")
        note s3 = next_char_stack[OF n3]
        show ?thesis
        proof (cases r3)
          case (Inl e)
          with kv w key n ch eq n3 s1 s2 s3 show ?thesis by (simp add: kv_def)
        next
          case ch3: (Inr ch3)
          show ?thesis
          proof (cases "tag p3")
            case None
            with kv w key n ch eq n3 ch3 s1 s2 s3 show ?thesis by (simp add: kv_def)
          next
            case t3: (Some t3)
            show ?thesis
            proof (cases "ch3 = DQ")
              case False
              with kv w key n ch eq n3 ch3 t3 s1 s2 s3 show ?thesis by (simp add: kv_def)
            next
              case True
              obtain r4 p4 where v: "kv_value E p3 key [] = (r4, p4)"
                by (cases "kv_value E p3 key []")
              note s4 = kv_value_reading[OF v]
              show ?thesis
              proof (cases r4)
                case (Inl e)
                with kv w key n ch eq n3 ch3 t3 True v s1 s2 s3 s4 show ?thesis by (simp add: kv_def)
              next
                case val: (Inr val)
                show ?thesis
                proof (cases "tag p4")
                  case None
                  with kv w key n ch eq n3 ch3 t3 True v val s1 s2 s3 s4 show ?thesis
                    by (simp add: kv_def)
                next
                  case (Some t4)
                  with kv w key n ch eq n3 ch3 t3 True v val
                  have "reading (stack p') = reading (stack p4)"
                    by (auto simp add: kv_def split: if_splits)
                  with s1 s2 s3 s4 show ?thesis by simp
                qed
              qed
            qed
          qed
        qed
      qed
    qed
  qed
qed

lemma kv_loop_reading: "kv_loop E p = (r, p') \<Longrightarrow> reading (stack p') = reading (stack p)"
proof (induction E p rule: kv_loop.induct)
  case (1 E p)
  obtain r1 p1 where k: "kv E p = (r1, p1)" by (cases "kv E p")
  note s1 = kv_reading[OF k]
  show ?case
  proof (cases r1)
    case (Inl e)
    with 1 k s1 show ?thesis by (simp add: kv_loop.simps[of E p])
  next
    case (Inr b)
    show ?thesis
    proof (cases b)
      case False
      with 1 k Inr s1 show ?thesis by (simp add: kv_loop.simps[of E p])
    next
      case True
      with 1 k Inr have "kv_loop E p1 = (r, p')" by (simp add: kv_loop.simps[of E p])
      from "1.IH"[OF k[symmetric] Inr True this] s1 show ?thesis by simp
    qed
  qed
qed

text \<open>
  \<open>dotag\<close> reads the tag without a call of \<open>ParseFile\<close>: either it throws while it
  reads, or it has read a tag and the rest is \<open>tag_action\<close> on the stack.
\<close>

lemma dotag_cases:
  obtains (throws) e p' where "\<And>nested. dotag nested E p0 = (Inl e, p')"
      and "reading (stack p') = reading (stack p0)"
    | (acts) name t p5 where
        "\<And>nested. dotag nested E p0 =
           (case tag_action nested E name t (flags p5) (stack p5) of
              (Inl e, st) \<Rightarrow> (Inl e, p5\<lparr> stack := st \<rparr>)
            | (Inr u, st) \<Rightarrow> (Inr (), p5\<lparr> stack := st, tag := None \<rparr>))"
      and "reading (stack p5) = reading (stack p0)"
proof -
  define p where "p = p0\<lparr> last_tag := current p0 \<rparr>"
  have s0: "stack p = stack p0" by (simp add: p_def)
  obtain r1 p1 where w: "nextword p [] = (r1, p1)" by (cases "nextword p []")
  note s1 = nextword_stack[OF w]
  show ?thesis
  proof (cases r1)
    case (Inl e)
    with w have "\<And>nested. dotag nested E p0 = (Inl e, p1)" by (simp add: dotag_def p_def[symmetric])
    with s0 s1 show ?thesis by (intro throws[of e p1]) simp_all
  next
    case name: (Inr name)
    obtain r2 p2 where n: "next_char p1 = (r2, p2)" by (cases "next_char p1")
    note s2 = next_char_stack[OF n]
    show ?thesis
    proof (cases r2)
      case (Inl e)
      with w name n have "\<And>nested. dotag nested E p0 = (Inl e, p2)"
        by (simp add: dotag_def p_def[symmetric])
      with s0 s1 s2 show ?thesis by (intro throws[of e p2]) simp_all
    next
      case spc: (Inr spc)
      obtain r3 p3 where g: "(if spc = CHR ''>'' then unget spc p2
                         else if \<not> isspace spc
                         then (Inl (CoreException ''Invalid character in tag name''), p2)
                         else (Inr (), p2)) = (r3, p3)"
        by (cases "(if spc = CHR ''>'' then unget spc p2
                         else if \<not> isspace spc
                         then (Inl (CoreException ''Invalid character in tag name''), p2)
                         else (Inr (), p2))")
      from g have s3: "stack p3 = stack p2"
        by (auto simp: unget_def split: if_splits)
      show ?thesis
      proof (cases r3)
        case (Inl e)
        with w name n spc g have "\<And>nested. dotag nested E p0 = (Inl e, p3)"
          by (simp add: dotag_def p_def[symmetric])
        with s0 s1 s2 s3 show ?thesis by (intro throws[of e p3]) simp_all
      next
        case u3: (Inr u3)
        show ?thesis
        proof (cases "name = []")
          case True
          with w name n spc g u3
          have "\<And>nested. dotag nested E p0 = (Inl (CoreException ''Empty tag name''), p3)"
            by (simp add: dotag_def p_def[symmetric])
          with s0 s1 s2 s3 show ?thesis
            by (intro throws[of "CoreException ''Empty tag name''" p3]) simp_all
        next
          case False
          define p3' where "p3' = p3\<lparr> tag := Some \<lparr> tag_name = name, tag_source = last_tag p3,
                                                            tag_items = [] \<rparr> \<rparr>"
          have s3': "stack p3' = stack p3" by (simp add: p3'_def)
          obtain r4 p4 where k: "kv_loop E p3' = (r4, p4)" by (cases "kv_loop E p3'")
          note s4 = kv_loop_reading[OF k]
          show ?thesis
          proof (cases r4)
            case (Inl e)
            with w name n spc g u3 False k have "\<And>nested. dotag nested E p0 = (Inl e, p4)"
              by (simp add: dotag_def p_def[symmetric] p3'_def[symmetric])
            with s0 s1 s2 s3 s3' s4 show ?thesis by (intro throws[of e p4]) simp_all
          next
            case u4: (Inr u4)
            define p5 where "p5 = (if name = mandatory_tag p4 then p4\<lparr> mandatory_tag := [] \<rparr> else p4)"
            have s5: "stack p5 = stack p4" by (simp add: p5_def)
            show ?thesis
            proof (cases "tag p5")
              case None
              with w name n spc g u3 False k u4
              have "\<And>nested. dotag nested E p0 = (Inl NullDereference, p5)"
                by (simp add: dotag_def p_def[symmetric] p3'_def[symmetric] Let_def p5_def[symmetric])
              with s0 s1 s2 s3 s3' s4 s5 show ?thesis
                by (intro throws[of NullDereference p5]) simp_all
            next
              case (Some t)
              from Some have t5: "tag (if name = mandatory_tag p4 then p4\<lparr> mandatory_tag := [] \<rparr> else p4) = Some t"
                by (simp add: p5_def)
              from w name n spc g u3 False k u4 t5
              have "\<And>nested. dotag nested E p0 =
                     (case tag_action nested E name t (flags p5) (stack p5) of
                        (Inl e, st) \<Rightarrow> (Inl e, p5\<lparr> stack := st \<rparr>)
                      | (Inr u, st) \<Rightarrow> (Inr (), p5\<lparr> stack := st, tag := None \<rparr>))"
                unfolding dotag_def Let_def p_def[symmetric] p5_def
                by (simp add: p3'_def[symmetric])
              moreover from s0 s1 s2 s3 s3' s4 s5 have "reading (stack p5) = reading (stack p0)"
                by simp
              ultimately show ?thesis by (rule acts)
            qed
          qed
        qed
      qed
    qed
  qed
qed

text \<open>
  \<open>Diverged\<close> and \<open>NullDereference\<close> end the run. A \<^verbatim>\<open>CoreException\<close> is caught by the
  parser of the including file, which goes on with the stack it finds.
\<close>

definition fatal :: "exn + 'a \<Rightarrow> bool" where
  "fatal r = (r = Inl Diverged \<or> r = Inl NullDereference)"

lemma fatal_simps [simp]:
  "\<not> fatal (Inr v)" "\<not> fatal (Inl (CoreException reason))"
  "fatal (Inl Diverged)" "fatal (Inl NullDereference)"
  by (simp_all add: fatal_def)

lemma fatal_Inl: "fatal (Inl e :: exn + 'a) = fatal (Inl e :: exn + 'b)"
  by (simp add: fatal_def)

text \<open>
  A \<open>ParseFile\<close> keeps the open files when every call of it that returns, or throws a
  \<^verbatim>\<open>CoreException\<close>, leaves the list of the open files as it found it.
\<close>

definition keeps_reading :: "ParseStack include_fn \<Rightarrow> bool" where
  "keeps_reading nested =
     (\<forall>path myflags mandatorytag isexec st r st'.
        nested path myflags mandatorytag isexec st = (r, st') \<longrightarrow> \<not> fatal r
        \<longrightarrow> reading st' = reading st)"

lemma keeps_readingD:
  "keeps_reading nested \<Longrightarrow> nested path myflags mandatorytag isexec st = (r, st') \<Longrightarrow> \<not> fatal r
   \<Longrightarrow> reading st' = reading st"
  unfolding keeps_reading_def by blast

text \<open>Two \<open>ParseFile\<close>s agree on the stacks whose open files are \<open>opened\<close>.\<close>

definition agrees :: "string list \<Rightarrow> ParseStack include_fn \<Rightarrow> ParseStack include_fn \<Rightarrow> bool" where
  "agrees opened nested1 nested2 =
     (\<forall>path myflags mandatorytag isexec st.
        reading st = opened
        \<longrightarrow> nested1 path myflags mandatorytag isexec st = nested2 path myflags mandatorytag isexec st)"

lemma agreesD:
  "agrees opened nested1 nested2 \<Longrightarrow> reading st = opened
   \<Longrightarrow> nested1 path myflags mandatorytag isexec st = nested2 path myflags mandatorytag isexec st"
  unfolding agrees_def by blast

lemma included_keeps:
  assumes K: "keeps_reading nested"
    and c: "(case nested path myflags mandatorytag isexec st of
               (Inl err, st') \<Rightarrow> (Inl err, st')
             | (Inr ok, st') \<Rightarrow> if \<not> ok then (Inl (CoreException ''Included''), st') else (Inr (), st'))
            = (r, st')"
    and nf: "\<not> fatal r"
  shows "reading st' = reading st"
proof -
  obtain r1 st1 where n: "nested path myflags mandatorytag isexec st = (r1, st1)"
    by (cases "nested path myflags mandatorytag isexec st")
  show ?thesis
  proof (cases r1)
    case (Inl e)
    with c n have "r = Inl e" "st' = st1" by simp_all
    with nf Inl have "\<not> fatal r1" "st' = st1" by (simp_all add: fatal_def)
    with keeps_readingD[OF K n] show ?thesis by simp
  next
    case (Inr ok)
    with c n have "st' = st1" by (simp split: if_splits)
    with keeps_readingD[OF K n] Inr show ?thesis by simp
  qed
qed

lemma include_directory_keeps:
  assumes K: "keeps_reading nested"
  shows "include_directory nested E entries myflags mandatorytag st = (r, st') \<Longrightarrow> \<not> fatal r
         \<Longrightarrow> reading st' = reading st"
proof (induction entries arbitrary: st)
  case Nil
  then show ?case by simp
next
  case (Cons entry entries)
  obtain path is_regular_file where entry: "entry = (path, is_regular_file)" by (cases entry)
  show ?case
  proof (cases "is_regular_file \<and> Match_conf E path")
    case False
    with Cons.prems entry have "include_directory nested E entries myflags mandatorytag st = (r, st')"
      by (auto split: if_splits)
    from Cons.IH[OF this Cons.prems(2)] show ?thesis .
  next
    case True
    obtain r1 st1 where n: "nested path myflags mandatorytag False st = (r1, st1)"
      by (cases "nested path myflags mandatorytag False st")
    show ?thesis
    proof (cases r1)
      case (Inl e)
      with Cons.prems entry True n have "r = Inl e" "st' = st1" by simp_all
      with Cons.prems(2) Inl have "\<not> fatal r1" "st' = st1" by (simp_all add: fatal_def)
      with keeps_readingD[OF K n] show ?thesis by simp
    next
      case (Inr ok)
      from keeps_readingD[OF K n] Inr have r1: "reading st1 = reading st" by simp
      show ?thesis
      proof (cases ok)
        case False
        with Cons.prems entry True n Inr have "st' = st1" by simp
        with r1 show ?thesis by simp
      next
        case ok: True
        with Cons.prems entry True n Inr
        have "include_directory nested E entries myflags mandatorytag st1 = (r, st')" by simp
        from Cons.IH[OF this Cons.prems(2)] r1 show ?thesis by simp
      qed
    qed
  qed
qed

lemma include_directory_agree:
  assumes K: "keeps_reading nested1" and A: "agrees opened nested1 nested2"
  shows "reading st = opened
         \<Longrightarrow> include_directory nested1 E entries myflags mandatorytag st
             = include_directory nested2 E entries myflags mandatorytag st"
proof (induction entries arbitrary: st)
  case Nil
  show ?case by simp
next
  case (Cons entry entries)
  obtain path is_regular_file where entry: "entry = (path, is_regular_file)" by (cases entry)
  note a = agreesD[OF A Cons.prems, of path myflags mandatorytag False]
  show ?case
  proof (cases "is_regular_file \<and> Match_conf E path")
    case False
    with entry Cons.IH[OF Cons.prems] show ?thesis by auto
  next
    case True
    obtain r1 st1 where n: "nested1 path myflags mandatorytag False st = (r1, st1)"
      by (cases "nested1 path myflags mandatorytag False st")
    show ?thesis
    proof (cases r1)
      case (Inl e)
      with entry True n a show ?thesis by simp
    next
      case (Inr ok)
      from keeps_readingD[OF K n] Inr Cons.prems have "reading st1 = opened" by simp
      from Cons.IH[OF this] entry True n a Inr show ?thesis by simp
    qed
  qed
qed

lemma DoInclude_keeps:
  assumes K: "keeps_reading nested"
    and d: "DoInclude nested E t myflags st = (r, st')"
    and nf: "\<not> fatal r"
  shows "reading st' = reading st"
proof (cases "myflags AND FLAG_NO_INC \<noteq> 0")
  case True
  with d show ?thesis by (simp add: DoInclude_def)
next
  case noinc: False
  show ?thesis
  proof (cases "readString t ''file'' False")
    case (Some name)
    with d noinc show ?thesis
      unfolding DoInclude_def Let_def
      by simp (erule included_keeps[OF K _ nf])
  next
    case nofile: None
    show ?thesis
    proof (cases "readString t ''directory'' False")
      case (Some name)
      show ?thesis
      proof (cases "directory_iterator E (PrependConfig E name)")
        case (Inl what)
        with d noinc nofile Some show ?thesis by (simp add: DoInclude_def Let_def)
      next
        case (Inr entries)
        with d noinc nofile Some show ?thesis
          unfolding DoInclude_def Let_def
          by simp (erule include_directory_keeps[OF K _ nf])
      qed
    next
      case nodir: None
      show ?thesis
      proof (cases "readString t ''executable'' False")
        case None
        with d noinc nofile nodir show ?thesis by (simp add: DoInclude_def)
      next
        case (Some name)
        show ?thesis
        proof (cases "myflags AND FLAG_NO_EXEC \<noteq> 0")
          case True
          with d noinc nofile nodir Some show ?thesis by (simp add: DoInclude_def)
        next
          case False
          with d noinc nofile nodir Some show ?thesis
            unfolding DoInclude_def Let_def
            by simp (erule included_keeps[OF K _ nf])
        qed
      qed
    qed
  qed
qed

lemma DoInclude_agree:
  assumes K: "keeps_reading nested1" and A: "agrees opened nested1 nested2"
    and rd: "reading st = opened"
  shows "DoInclude nested1 E t myflags st = DoInclude nested2 E t myflags st"
  unfolding DoInclude_def Let_def
  by (simp add: agreesD[OF A rd] include_directory_agree[OF K A rd]
      cong: option.case_cong sum.case_cong if_cong)

lemma DoReadFile_reading:
  "DoReadFile E key name myflags exec st = (r, st') \<Longrightarrow> reading st' = reading st"
  by (auto simp: DoReadFile_def Let_def split: if_splits option.splits)

lemma read_files_reading:
  "read_files E items myflags exec st = (r, st') \<Longrightarrow> reading st' = reading st"
proof (induction items arbitrary: st)
  case Nil
  then show ?case by simp
next
  case (Cons item items)
  obtain key val where item: "item = (key, val)" by (cases item)
  obtain r1 st1 where f: "DoReadFile E key val myflags exec st = (r1, st1)"
    by (cases "DoReadFile E key val myflags exec st")
  note s1 = DoReadFile_reading[OF f]
  show ?case
  proof (cases r1)
    case (Inl e)
    with Cons.prems item f s1 show ?thesis by simp
  next
    case (Inr u)
    with Cons.prems item f have "read_files E items myflags exec st1 = (r, st')" by simp
    from Cons.IH[OF this] s1 show ?thesis by simp
  qed
qed

lemma tag_action_keeps:
  assumes K: "keeps_reading nested"
    and a: "tag_action nested E name t myflags st = (r, st')"
    and nf: "\<not> fatal r"
  shows "reading st' = reading st"
proof -
  consider (incl) "equalsci name ''include''"
    | (files) "\<not> equalsci name ''include''" "equalsci name ''files''"
    | (execfiles) "\<not> equalsci name ''include''" "\<not> equalsci name ''files''" "equalsci name ''execfiles''"
    | (other) "\<not> equalsci name ''include''" "\<not> equalsci name ''files''" "\<not> equalsci name ''execfiles''"
    by blast
  then show ?thesis
  proof cases
    case incl
    with a have "DoInclude nested E t myflags st = (r, st')" by (simp add: tag_action_def)
    from DoInclude_keeps[OF K this nf] show ?thesis .
  next
    case files
    with a have "read_files E (tag_items t) myflags False st = (r, st')" by (simp add: tag_action_def)
    from read_files_reading[OF this] show ?thesis .
  next
    case execfiles
    with a have "read_files E (tag_items t) myflags True st = (r, st')" by (simp add: tag_action_def)
    from read_files_reading[OF this] show ?thesis .
  next
    case other
    with a show ?thesis by (auto simp add: tag_action_def Let_def split: if_splits)
  qed
qed

lemma tag_action_agree:
  assumes K: "keeps_reading nested1" and A: "agrees opened nested1 nested2"
    and rd: "reading st = opened"
  shows "tag_action nested1 E name t myflags st = tag_action nested2 E name t myflags st"
  by (simp add: tag_action_def DoInclude_agree[OF K A rd])

lemma dotag_keeps:
  assumes K: "keeps_reading nested"
    and d: "dotag nested E p = (r, p')"
    and nf: "\<not> fatal r"
  shows "reading (stack p') = reading (stack p)"
proof (cases E p rule: dotag_cases)
  case (throws e p1)
  with d show ?thesis by simp
next
  case (acts name t p5)
  obtain r1 st1 where a: "tag_action nested E name t (flags p5) (stack p5) = (r1, st1)"
    by (cases "tag_action nested E name t (flags p5) (stack p5)")
  show ?thesis
  proof (cases r1)
    case (Inl e)
    with d acts(1)[of nested] a have "r = Inl e" "stack p' = st1" by auto
    with nf Inl have "\<not> fatal r1" "stack p' = st1" by (simp_all add: fatal_def)
    with tag_action_keeps[OF K a] acts(2) show ?thesis by simp
  next
    case (Inr u)
    with d acts(1)[of nested] a have "stack p' = st1" by auto
    with tag_action_keeps[OF K a] Inr acts(2) show ?thesis by simp
  qed
qed

lemma dotag_agree:
  assumes K: "keeps_reading nested1" and A: "agrees opened nested1 nested2"
    and rd: "reading (stack p) = opened"
  shows "dotag nested1 E p = dotag nested2 E p"
proof (cases E p rule: dotag_cases)
  case (throws e p1)
  then show ?thesis by simp
next
  case (acts name t p5)
  from acts(2) rd have "reading (stack p5) = opened" by simp
  from tag_action_agree[OF K A this] acts(1) show ?thesis by simp
qed

lemma outer_loop_keeps:
  assumes K: "keeps_reading nested"
  shows "outer_loop nested E p = (r, p') \<Longrightarrow> \<not> fatal r \<Longrightarrow> reading (stack p') = reading (stack p)"
  using K
proof (induction nested E p rule: outer_loop.induct)
  case (1 nested E p)
  note ol = "1.prems"(1) and nf = "1.prems"(2) and K = "1.prems"(3)
  obtain r1 p1 where n: "next_ch True p = (r1, p1)" by (cases "next_ch True p")
  note s1 = next_ch_stack[OF n]
  show ?case
  proof (cases r1)
    case (Inl e)
    with ol n s1 show ?thesis by (simp add: outer_loop.simps[of nested E p])
  next
    case (Inr c)
    show ?thesis
    proof (cases c)
      case None
      with ol n Inr have "p' = p1"
        unfolding outer_loop.simps[of nested E p] by (simp split: if_splits)
      with s1 show ?thesis by simp
    next
      case (Some ch)
      consider (hash) "ch = CHR ''#''"
        | (lt) "ch \<noteq> CHR ''#''" "ch = CHR ''<''"
        | (space) "ch \<noteq> CHR ''#''" "ch \<noteq> CHR ''<''" "ch = CHR '' '' \<or> ch = CR \<or> ch = TAB \<or> ch = NL"
        | (other) "ch \<noteq> CHR ''#''" "ch \<noteq> CHR ''<''" "\<not> (ch = CHR '' '' \<or> ch = CR \<or> ch = TAB \<or> ch = NL)"
        by blast
      then show ?thesis
      proof cases
        case hash
        obtain r2 p2 where c: "comment p1 = (r2, p2)" by (cases "comment p1")
        note s2 = comment_stack[OF c]
        show ?thesis
        proof (cases r2)
          case (Inl e)
          with ol n Inr Some hash c s1 s2 show ?thesis by (simp add: outer_loop.simps[of nested E p])
        next
          case u: (Inr u)
          with ol n Inr Some hash c have "outer_loop nested E p2 = (r, p')"
            by (simp add: outer_loop.simps[of nested E p])
          from "1.IH"(1)[OF n[symmetric] Inr Some hash c[symmetric] u this nf K] s1 s2
          show ?thesis by simp
        qed
      next
        case lt
        obtain r2 p2 where d: "dotag nested E p1 = (r2, p2)" by (cases "dotag nested E p1")
        show ?thesis
        proof (cases r2)
          case (Inl e)
          with ol n Inr Some lt d have "r = Inl e" "p' = p2" by (simp_all add: outer_loop.simps[of nested E p])
          with nf Inl have "\<not> fatal r2" "p' = p2" by (simp_all add: fatal_def)
          with dotag_keeps[OF K d] s1 show ?thesis by simp
        next
          case u: (Inr u)
          with dotag_keeps[OF K d] have s2: "reading (stack p2) = reading (stack p1)" by simp
          from ol n Inr Some lt d u have "outer_loop nested E p2 = (r, p')"
            by (simp add: outer_loop.simps[of nested E p])
          from "1.IH"(2)[OF n[symmetric] Inr Some lt(1,2) d[symmetric] u this nf K] s1 s2
          show ?thesis by simp
        qed
      next
        case space
        with ol n Inr Some have "outer_loop nested E p1 = (r, p')"
          by (simp add: outer_loop.simps[of nested E p])
        from "1.IH"(3)[OF n[symmetric] Inr Some space this nf K] s1 show ?thesis by simp
      next
        case other
        show ?thesis
        proof (cases "ch = CHR 0xFE \<or> ch = CHR 0xFF")
          case True
          with ol n Inr Some other
          have "p' = p1\<lparr> stack := (stack p1)\<lparr> errstr := errstr (stack p1)
                      @ ''Do not save your files as UTF-16 or UTF-32, use UTF-8!'' @ [NL] \<rparr> \<rparr>"
            unfolding outer_loop.simps[of nested E p] by simp
          with s1 show ?thesis by simp
        next
          case False
          with ol n Inr Some other have "p' = p1"
            unfolding outer_loop.simps[of nested E p] by simp
          with s1 show ?thesis by simp
        qed
      qed
    qed
  qed
qed

lemma outer_loop_agree:
  assumes K: "keeps_reading nested1" and A: "agrees opened nested1 nested2"
  shows "reading (stack p) = opened \<Longrightarrow> outer_loop nested1 E p = outer_loop nested2 E p"
  using K A
proof (induction nested1 E p rule: outer_loop.induct)
  case (1 nested1 E p)
  note rd = "1.prems"(1) and K = "1.prems"(2) and A = "1.prems"(3)
  obtain r1 p1 where n: "next_ch True p = (r1, p1)" by (cases "next_ch True p")
  from next_ch_stack[OF n] rd have s1: "reading (stack p1) = opened" by simp
  show ?case
  proof (cases r1)
    case (Inl e)
    with n show ?thesis by (simp add: outer_loop.simps[of _ E p])
  next
    case (Inr c)
    show ?thesis
    proof (cases c)
      case None
      with n Inr show ?thesis by (simp add: outer_loop.simps[of _ E p])
    next
      case (Some ch)
      consider (hash) "ch = CHR ''#''"
        | (lt) "ch \<noteq> CHR ''#''" "ch = CHR ''<''"
        | (space) "ch \<noteq> CHR ''#''" "ch \<noteq> CHR ''<''" "ch = CHR '' '' \<or> ch = CR \<or> ch = TAB \<or> ch = NL"
        | (other) "ch \<noteq> CHR ''#''" "ch \<noteq> CHR ''<''" "\<not> (ch = CHR '' '' \<or> ch = CR \<or> ch = TAB \<or> ch = NL)"
        by blast
      then show ?thesis
      proof cases
        case hash
        obtain r2 p2 where c: "comment p1 = (r2, p2)" by (cases "comment p1")
        from comment_stack[OF c] s1 have s2: "reading (stack p2) = opened" by simp
        show ?thesis
        proof (cases r2)
          case (Inl e)
          with n Inr Some hash c show ?thesis by (simp add: outer_loop.simps[of _ E p])
        next
          case u: (Inr u)
          from "1.IH"(1)[OF n[symmetric] Inr Some hash c[symmetric] u s2 K A]
            n Inr Some hash c u
          show ?thesis by (simp add: outer_loop.simps[of _ E p])
        qed
      next
        case lt
        obtain r2 p2 where d: "dotag nested1 E p1 = (r2, p2)" by (cases "dotag nested1 E p1")
        note d2 = d[unfolded dotag_agree[OF K A s1]]
        show ?thesis
        proof (cases r2)
          case (Inl e)
          with n Inr Some lt d d2 show ?thesis by (simp add: outer_loop.simps[of _ E p])
        next
          case u: (Inr u)
          with dotag_keeps[OF K d] s1 have s2: "reading (stack p2) = opened" by simp
          from "1.IH"(2)[OF n[symmetric] Inr Some lt(1,2) d[symmetric] u s2 K A]
            n Inr Some lt d d2 u
          show ?thesis by (simp add: outer_loop.simps[of _ E p])
        qed
      next
        case space
        from "1.IH"(3)[OF n[symmetric] Inr Some space s1 K A] n Inr Some space
        show ?thesis by (simp add: outer_loop.simps[of _ E p])
      next
        case other
        with n Inr Some show ?thesis by (simp add: outer_loop.simps[of _ E p])
      qed
    qed
  qed
qed

lemma outer_parse_keeps:
  assumes K: "keeps_reading nested"
    and o: "outer_parse nested E p = (r, st')"
    and nf: "\<not> fatal r"
  shows "reading st' = reading (stack p)"
proof -
  obtain r1 p1 where l: "outer_loop nested E p = (r1, p1)" by (cases "outer_loop nested E p")
  show ?thesis
  proof (cases r1)
    case (Inr u)
    with o l have "st' = stack p1" by (simp add: outer_parse_def)
    with outer_loop_keeps[OF K l] Inr show ?thesis by simp
  next
    case (Inl e)
    show ?thesis
    proof (cases e)
      case (CoreException reason)
      with o l Inl have "reading st' = reading (stack p1)" by (auto simp add: outer_parse_def)
      with outer_loop_keeps[OF K l] Inl CoreException show ?thesis by simp
    next
      case Diverged
      with o l Inl nf show ?thesis by (auto simp add: outer_parse_def)
    next
      case NullDereference
      with o l Inl nf show ?thesis by (auto simp add: outer_parse_def)
    qed
  qed
qed

lemma outer_parse_agree:
  assumes K: "keeps_reading nested1" and A: "agrees opened nested1 nested2"
    and rd: "reading (stack p) = opened"
  shows "outer_parse nested1 E p = outer_parse nested2 E p"
  by (simp add: outer_parse_def outer_loop_agree[OF K A rd])

text \<open>
  \<open>ParseFile\<close> pushes the path that it opens: the \<open>ParseFile\<close> of the nested includes is
  called only on stacks whose open files are those of the caller and then this path.
  When it returns, the path is popped.
\<close>

lemma ParseFile_agree:
  assumes K: "keeps_reading nested1" and A: "agrees (reading st @ [path]) nested1 nested2"
  shows "ParseFile nested1 E path myflags mandatorytag isexec st
         = ParseFile nested2 E path myflags mandatorytag isexec st"
  unfolding ParseFile_def
  by (simp add: outer_parse_agree[OF K A] cong: option.case_cong if_cong)

lemma ParseFile_keeps:
  assumes K: "keeps_reading nested"
  shows "keeps_reading (ParseFile nested E)"
  unfolding keeps_reading_def
proof (intro allI impI)
  fix path myflags mandatorytag isexec st r st'
  assume pf: "ParseFile nested E path myflags mandatorytag isexec st = (r, st')" and nf: "\<not> fatal r"
  show "reading st' = reading st"
  proof (cases "path \<in> set (reading st)")
    case True
    with pf show ?thesis by (simp add: ParseFile_def)
  next
    case False
    show ?thesis
    proof (cases "if isexec then popen E path else fopen E path")
      case None
      with pf False show ?thesis by (auto simp add: ParseFile_def split: if_splits)
    next
      case (Some content)
      define p where "p = \<lparr> stack = st\<lparr> reading := reading st @ [path] \<rparr>,
                      flags = myflags,
                      conf = content,
                      current = \<lparr> pos_name = path, pos_line = 1, pos_column = 0 \<rparr>,
                      last_tag = \<lparr> pos_name = path, pos_line = 0, pos_column = 0 \<rparr>,
                      tag = None,
                      ungot = None,
                      mandatory_tag = mandatorytag \<rparr>"
      have sp: "reading (stack p) = reading st @ [path]" by (simp add: p_def)
      obtain r1 st1 where o: "outer_parse nested E p = (r1, st1)" by (cases "outer_parse nested E p")
      from pf False Some
      have pf': "(case outer_parse nested E p of
                    (Inl e, st') \<Rightarrow> (Inl e, st')
                  | (Inr ok, st') \<Rightarrow> (Inr ok, st'\<lparr> reading := butlast (reading st') \<rparr>)) = (r, st')"
        unfolding ParseFile_def p_def by simp
      show ?thesis
      proof (cases r1)
        case (Inl e)
        with pf' o have "r = Inl e" "st' = st1" by simp_all
        with nf Inl have nf1: "\<not> fatal r1" and "st' = st1" by (simp_all add: fatal_def)
        show ?thesis
        proof (cases e)
          case (CoreException reason)
          with o Inl show ?thesis
            by (auto simp add: outer_parse_def split: prod.splits sum.splits exn.splits)
        next
          case Diverged
          with nf1 Inl show ?thesis by simp
        next
          case NullDereference
          with nf1 Inl show ?thesis by simp
        qed
      next
        case (Inr ok)
        with outer_parse_keeps[OF K o] sp have "reading st1 = reading st @ [path]" by simp
        with pf' o Inr show ?thesis by auto
      qed
    qed
  qed
qed

lemma ParseFile_n_keeps: "keeps_reading (ParseFile_n n E)"
proof (induction n)
  case 0
  show ?case by (simp add: keeps_reading_def)
next
  case (Suc n)
  from ParseFile_keeps[OF Suc] show ?case by simp
qed

subsection \<open>Include cycles\<close>

text \<open>
  Modelled from the spec: the constructor of \<^verbatim>\<open>ParseStack\<close> (configparser.h is not
  among the sources), which starts with no file open, no tag read and the variables
  \<open>amp\<close> and \<open>quot\<close> of the entities \<^verbatim>\<open>&amp;\<close> and \<^verbatim>\<open>&quot;\<close>.
\<close>

definition initial_stack :: ParseStack where
  "initial_stack =
     \<lparr> reading = [], vars = [''amp'' \<mapsto> ''&'', ''quot'' \<mapsto> [DQ]], output_tags = [],
       FilesOutput = (\<lambda>key. None), errstr = [] \<rparr>"

text \<open>
  The scenario of the specification: \<open>a.conf\<close> includes \<open>b.conf\<close>, which includes
  \<open>a.conf\<close>. The exception is caught by the parser of \<open>b.conf\<close> and then by that of
  \<open>a.conf\<close>; the parse returns false with both reasons in the error stream.
\<close>

definition two_files :: os where
  "two_files =
     \<lparr> fopen = (\<lambda>path. if path = ''a.conf'' then Some (''<include file='' @ [DQ] @ ''b.conf'' @ [DQ] @ ''>'')
                       else if path = ''b.conf'' then Some (''<include file='' @ [DQ] @ ''a.conf'' @ [DQ] @ ''>'')
                       else None),
       popen = (\<lambda>command. None), getenv = (\<lambda>name. None),
       directory_iterator = (\<lambda>dir. Inl ''No such file or directory''),
       PrependConfig = (\<lambda>path. path), Match_conf = (\<lambda>path. False),
       pos_str = (\<lambda>pos. pos_name pos @ '':'' @ ConvToStr (pos_line pos)) \<rparr>"

lemmas parser_eval =
  ParseFile_def outer_parse_def outer_loop.simps next_ch_def next_char_def dotag_def tag_action_def
  nextword_def skip_space.simps word_loop.simps isspace_def wordchar_def isalnum_def unget_def
  kv_loop.simps kv_def kv_value.simps comment.simps entity_name.simps expand_entity_def equalsci_def
  DoInclude_def readString_def getBool_def getString_def UINT32_MAX_def char_at_def
  FLAG_NO_INC_def FLAG_NO_EXEC_def FLAG_NO_ENV_def FLAG_MISSING_OKAY_def Let_def ConvToStr.simps

lemma include_cycle_scenario:
  "ParseFile_n 3 two_files ''a.conf'' 0 [] False initial_stack =
     (Inr False,
      initial_stack\<lparr> errstr :=
        ''File a.conf is included recursively (looped inclusion) at b.conf:1 (inside tag include at line 1)''
        @ [NL] @ ''Included at a.conf:1 (inside tag include at line 1)'' @ [NL] \<rparr>)"
  by (simp add: numeral_3_eq_3 two_files_def initial_stack_def parser_eval)

text \<open>
  Modelled from the spec: include cycles are detected by maintaining a stack of the
  currently open paths, and re-entry fails with an error. \<open>include_chain n E opened\<close> is
  the parse of a file in these words: \<open>opened\<close> is the chain of includes that leads to
  the file, from the first file of the run to the including one; a path of the chain
  is refused with the error, unopened and unparsed; any other path is opened and
  parsed by \<open>parse_opened\<close>, its includes with the chain lengthened by the path.
  \<open>parse_opened\<close> is \<open>ParseFile\<close> after its test, and \<open>include_chain\<close> never looks at the
  list \<open>reading\<close> of the stack.
\<close>

definition looped_inclusion :: "bool \<Rightarrow> string \<Rightarrow> exn" where
  "looped_inclusion isexec path =
     CoreException ((if isexec then ''Executable '' else ''File '') @ path
                    @ '' is included recursively (looped inclusion)'')"

definition parse_opened ::
  "ParseStack include_fn \<Rightarrow> os \<Rightarrow> string \<Rightarrow> int \<Rightarrow> string \<Rightarrow> bool \<Rightarrow> ParseStack
   \<Rightarrow> (exn + bool) \<times> ParseStack" where
  "parse_opened nested E path myflags mandatorytag isexec st =
     (case (if isexec then popen E path else fopen E path) of
        None \<Rightarrow>
          if myflags AND FLAG_MISSING_OKAY \<noteq> 0 then (Inr True, st)
          else (Inl (CoreException (''Could not read '' @ [DQ] @ path @ [DQ] @ '' for include'')), st)
      | Some content \<Rightarrow>
          (case outer_parse nested E
                  \<lparr> stack = st\<lparr> reading := reading st @ [path] \<rparr>,
                    flags = myflags,
                    conf = content,
                    current = \<lparr> pos_name = path, pos_line = 1, pos_column = 0 \<rparr>,
                    last_tag = \<lparr> pos_name = path, pos_line = 0, pos_column = 0 \<rparr>,
                    tag = None,
                    ungot = None,
                    mandatory_tag = mandatorytag \<rparr> of
             (Inl e, st') \<Rightarrow> (Inl e, st')
           | (Inr ok, st') \<Rightarrow> (Inr ok, st'\<lparr> reading := butlast (reading st') \<rparr>)))"

primrec include_chain :: "nat \<Rightarrow> os \<Rightarrow> string list \<Rightarrow> ParseStack include_fn" where
  "include_chain 0 E opened = (\<lambda>path myflags mandatorytag isexec st. (Inl Diverged, st))"
| "include_chain (Suc n) E opened =
     (\<lambda>path myflags mandatorytag isexec st.
        if path \<in> set opened then (Inl (looped_inclusion isexec path), st)
        else parse_opened (include_chain n E (opened @ [path])) E path myflags mandatorytag isexec st)"

text \<open>
  \<open>only_on opened nested\<close> is \<open>nested\<close> on the stacks whose open files are \<open>opened\<close>, and
  ends the run on any other stack.
\<close>

definition only_on :: "string list \<Rightarrow> ParseStack include_fn \<Rightarrow> ParseStack include_fn" where
  "only_on opened nested =
     (\<lambda>path myflags mandatorytag isexec st.
        if reading st = opened then nested path myflags mandatorytag isexec st
        else (Inl Diverged, st))"

lemma ParseFile_parse_opened:
  "ParseFile nested E path myflags mandatorytag isexec st =
     (if path \<in> set (reading st) then (Inl (looped_inclusion isexec path), st)
      else parse_opened nested E path myflags mandatorytag isexec st)"
  by (simp add: ParseFile_def parse_opened_def looped_inclusion_def)

lemma parse_opened_agree:
  assumes K: "keeps_reading nested1" and A: "agrees (reading st @ [path]) nested1 nested2"
  shows "parse_opened nested1 E path myflags mandatorytag isexec st
         = parse_opened nested2 E path myflags mandatorytag isexec st"
  unfolding parse_opened_def
  by (simp add: outer_parse_agree[OF K A] cong: option.case_cong if_cong)

lemma ParseFile_n_include_chain:
  "ParseFile_n n E path myflags mandatorytag isexec st
   = include_chain n E (reading st) path myflags mandatorytag isexec st"
proof (induction n arbitrary: path myflags mandatorytag isexec st)
  case 0
  show ?case by simp
next
  case (Suc n)
  have "agrees (reading st @ [path]) (ParseFile_n n E) (include_chain n E (reading st @ [path]))"
    unfolding agrees_def using Suc by simp
  from parse_opened_agree[OF ParseFile_n_keeps this] show ?case
    by (simp add: ParseFile_parse_opened)
qed

lemma ParseFile_n_only_on:
  "ParseFile_n (Suc n) E path myflags mandatorytag isexec st
   = ParseFile (only_on (reading st @ [path]) (ParseFile_n n E)) E path myflags mandatorytag isexec st"
proof -
  have "agrees (reading st @ [path]) (ParseFile_n n E) (only_on (reading st @ [path]) (ParseFile_n n E))"
    by (simp add: agrees_def only_on_def)
  from ParseFile_agree[OF ParseFile_n_keeps this] show ?thesis by simp
qed

lemma looped_inclusion_contains:
  "\<exists>reason. looped_inclusion isexec path = CoreException reason
            \<and> contains reason path
            \<and> contains reason ''included recursively''
            \<and> contains reason ''looped inclusion''"
proof -
  let ?reason = "(if isexec then ''Executable '' else ''File '') @ path
                   @ '' is included recursively (looped inclusion)''"
  have "contains ?reason path"
    using contains_append[of "(if isexec then ''Executable '' else ''File '')" path
      "'' is included recursively (looped inclusion)''"] by simp
  moreover have "contains ?reason ''included recursively''"
    using contains_append[of "(if isexec then ''Executable '' else ''File '') @ path @ '' is ''"
      "''included recursively''" "'' (looped inclusion)''"] by simp
  moreover have "contains ?reason ''looped inclusion''"
    using contains_append[of "(if isexec then ''Executable '' else ''File '') @ path @ '' is included recursively (''"
      "''looped inclusion''" "'')''"] by simp
  ultimately show ?thesis by (simp add: looped_inclusion_def)
qed

text \<open>
  C4. The stack of the open paths is the chain of the includes: a file is parsed as
  \<open>include_chain\<close> parses it, so a path that is met again down its own chain of
  includes, at any depth, is refused with the error, unopened and unparsed. The
  \<open>ParseFile\<close> of the includes of a file is called only on stacks that hold the open
  paths of the caller and then the path of the file. And when the path that \<open>ParseFile\<close>
  is asked to open is on the stack of the paths being read, it throws a
  \<^verbatim>\<open>CoreException\<close> whose reason contains the path, \<open>included recursively\<close> and
  \<open>looped inclusion\<close>; the parse stack is as it was, and the result depends neither on
  the file system nor on the parser of nested files: the file is not opened and not
  parsed again.
\<close>

theorem ParseFile_looped_inclusion:
  "ParseFile_n n E path myflags mandatorytag isexec st
     = include_chain n E (reading st) path myflags mandatorytag isexec st
   \<and> ParseFile_n (Suc n) E path myflags mandatorytag isexec st
     = ParseFile (only_on (reading st @ [path]) (ParseFile_n n E)) E path myflags mandatorytag isexec st
   \<and> (path \<in> set (reading st) \<longrightarrow>
        (\<exists>reason. ParseFile nested E path myflags mandatorytag isexec st = (Inl (CoreException reason), st)
           \<and> contains reason path
           \<and> contains reason ''included recursively''
           \<and> contains reason ''looped inclusion''
           \<and> (\<forall>nested' E'. ParseFile nested' E' path myflags mandatorytag isexec st
                              = (Inl (CoreException reason), st))))"
proof (intro conjI impI)
  show "ParseFile_n n E path myflags mandatorytag isexec st
          = include_chain n E (reading st) path myflags mandatorytag isexec st"
    by (rule ParseFile_n_include_chain)
  show "ParseFile_n (Suc n) E path myflags mandatorytag isexec st
     = ParseFile (only_on (reading st @ [path]) (ParseFile_n n E)) E path myflags mandatorytag isexec st"
    by (rule ParseFile_n_only_on)
next
  assume open_path: "path \<in> set (reading st)"
  from looped_inclusion_contains[of isexec path]
  obtain reason where r: "looped_inclusion isexec path = CoreException reason"
    "contains reason path" "contains reason ''included recursively''"
    "contains reason ''looped inclusion''" by blast
  from open_path r(1)
  have "\<And>nested' E'. ParseFile nested' E' path myflags mandatorytag isexec st
                    = (Inl (CoreException reason), st)"
    by (simp add: ParseFile_parse_opened)
  with r show "\<exists>reason. ParseFile nested E path myflags mandatorytag isexec st = (Inl (CoreException reason), st)
           \<and> contains reason path
           \<and> contains reason ''included recursively''
           \<and> contains reason ''looped inclusion''
           \<and> (\<forall>nested' E'. ParseFile nested' E' path myflags mandatorytag isexec st
                              = (Inl (CoreException reason), st))"
    by blast
qed

theorem ParseFile_looped_inclusion_witness:
  "''a.conf'' \<in> set (reading (initial_stack\<lparr> reading := [''a.conf'', ''b.conf''] \<rparr>))
   \<and> (\<exists>reason. ParseFile (ParseFile_n 0 no_files) no_files ''a.conf'' 0 [] False
                  (initial_stack\<lparr> reading := [''a.conf'', ''b.conf''] \<rparr>)
                = (Inl (CoreException reason), initial_stack\<lparr> reading := [''a.conf'', ''b.conf''] \<rparr>)
              \<and> contains reason ''a.conf''
              \<and> contains reason ''included recursively''
              \<and> contains reason ''looped inclusion'')
   \<and> include_chain 3 two_files [] ''a.conf'' 0 [] False initial_stack =
       (Inr False,
        initial_stack\<lparr> errstr :=
          ''File a.conf is included recursively (looped inclusion) at b.conf:1 (inside tag include at line 1)''
          @ [NL] @ ''Included at a.conf:1 (inside tag include at line 1)'' @ [NL] \<rparr>)
   \<and> ParseFile (only_on [''a.conf''] (ParseFile_n 2 two_files)) two_files ''a.conf'' 0 [] False initial_stack =
       (Inr False,
        initial_stack\<lparr> errstr :=
          ''File a.conf is included recursively (looped inclusion) at b.conf:1 (inside tag include at line 1)''
          @ [NL] @ ''Included at a.conf:1 (inside tag include at line 1)'' @ [NL] \<rparr>)"
proof -
  have h: "''a.conf'' \<in> set (reading (initial_stack\<lparr> reading := [''a.conf'', ''b.conf''] \<rparr>))"
    by simp
  have e: "reading initial_stack = []" by (simp add: initial_stack_def)
  note guard = ParseFile_looped_inclusion[where n = 0 and E = no_files and path = "''a.conf''"
      and myflags = 0 and mandatorytag = "[]" and isexec = False
      and st = "initial_stack\<lparr> reading := [''a.conf'', ''b.conf''] \<rparr>"
      and nested = "ParseFile_n 0 no_files"]
  note chain = ParseFile_looped_inclusion[where n = 3 and E = two_files and path = "''a.conf''"
      and myflags = 0 and mandatorytag = "[]" and isexec = False and st = initial_stack]
  note push = ParseFile_looped_inclusion[where n = 2 and E = two_files and path = "''a.conf''"
      and myflags = 0 and mandatorytag = "[]" and isexec = False and st = initial_stack]
  from guard h
  have "\<exists>reason. ParseFile (ParseFile_n 0 no_files) no_files ''a.conf'' 0 [] False
                  (initial_stack\<lparr> reading := [''a.conf'', ''b.conf''] \<rparr>)
                = (Inl (CoreException reason), initial_stack\<lparr> reading := [''a.conf'', ''b.conf''] \<rparr>)
              \<and> contains reason ''a.conf''
              \<and> contains reason ''included recursively''
              \<and> contains reason ''looped inclusion''"
    by blast
  moreover from chain e include_cycle_scenario
  have "include_chain 3 two_files [] ''a.conf'' 0 [] False initial_stack =
       (Inr False,
        initial_stack\<lparr> errstr :=
          ''File a.conf is included recursively (looped inclusion) at b.conf:1 (inside tag include at line 1)''
          @ [NL] @ ''Included at a.conf:1 (inside tag include at line 1)'' @ [NL] \<rparr>)"
    by simp
  moreover from push e include_cycle_scenario
  have "ParseFile (only_on [''a.conf''] (ParseFile_n 2 two_files)) two_files ''a.conf'' 0 [] False initial_stack =
       (Inr False,
        initial_stack\<lparr> errstr :=
          ''File a.conf is included recursively (looped inclusion) at b.conf:1 (inside tag include at line 1)''
          @ [NL] @ ''Included at a.conf:1 (inside tag include at line 1)'' @ [NL] \<rparr>)"
    by (simp add: numeral_3_eq_3)
  ultimately show ?thesis using h by blast
qed

subsection \<open>Entity expansion\<close>

text \<open>The parser after it has read \<open>&name;\<close> on one line, with \<open>rest\<close> left to read.\<close>

definition after_entity :: "Parser \<Rightarrow> string \<Rightarrow> string \<Rightarrow> Parser" where
  "after_entity p name rest =
     p\<lparr> conf := rest,
        current := (current p)\<lparr> pos_column := pos_column (current p) + length name + 2 \<rparr> \<rparr>"

lemma wordchar_not_special:
  "wordchar ch \<Longrightarrow> ch \<noteq> NL \<and> ch \<noteq> CHR '';'' \<and> ch \<noteq> CHR ''#''"
  by (auto simp: wordchar_def isalnum_def)

lemma entity_name_reads:
  assumes "ungot p = None" and "conf p = name @ CHR '';'' # rest" and "\<forall>ch \<in> set name. wordchar ch"
  shows "entity_name p key v =
           (Inr (v @ name),
            p\<lparr> conf := rest,
               current := (current p)\<lparr> pos_column := pos_column (current p) + length name + 1 \<rparr> \<rparr>)"
  using assms
proof (induction name arbitrary: p v)
  case Nil
  then show ?case
    by (simp add: entity_name.simps[of p] next_char_def next_ch_def wordchar_def isalnum_def)
next
  case (Cons c name)
  let ?p1 = "p\<lparr> conf := name @ CHR '';'' # rest,
                 current := (current p)\<lparr> pos_column := pos_column (current p) + 1 \<rparr> \<rparr>"
  from Cons.prems wordchar_not_special[of c]
  have n: "next_char p = (Inr c, ?p1)" and w: "wordchar c"
    by (simp_all add: next_char_def next_ch_def)
  have "entity_name ?p1 key (v @ [c]) =
          (Inr ((v @ [c]) @ name),
           ?p1\<lparr> conf := rest,
               current := (current ?p1)\<lparr> pos_column := pos_column (current ?p1) + length name + 1 \<rparr> \<rparr>)"
    using Cons.prems by (intro Cons.IH) simp_all
  with n w show ?case
    by (simp add: entity_name.simps[of p])
qed

lemma entity_name_reads_numeric:
  assumes "ungot p = None" and "conf p = CHR ''#'' # body @ CHR '';'' # rest"
    and "\<forall>ch \<in> set body. wordchar ch"
  shows "entity_name p key [] =
           (Inr (CHR ''#'' # body),
            p\<lparr> conf := rest,
               current := (current p)\<lparr> pos_column := pos_column (current p) + length body + 2 \<rparr> \<rparr>)"
proof -
  let ?p1 = "p\<lparr> conf := body @ CHR '';'' # rest,
                 current := (current p)\<lparr> pos_column := pos_column (current p) + 1 \<rparr> \<rparr>"
  from assms have n: "next_char p = (Inr (CHR ''#''), ?p1)"
    by (simp add: next_char_def next_ch_def)
  have "entity_name ?p1 key ''#'' =
          (Inr (''#'' @ body),
           ?p1\<lparr> conf := rest,
               current := (current ?p1)\<lparr> pos_column := pos_column (current ?p1) + length body + 1 \<rparr> \<rparr>)"
    using assms by (intro entity_name_reads) simp_all
  with n show ?thesis
    by (simp add: entity_name.simps[of p])
qed

text \<open>An entity name: word characters, after an optional \<open>#\<close>.\<close>

definition entity_chars :: "string \<Rightarrow> bool" where
  "entity_chars name =
     (case name of
        [] \<Rightarrow> True
      | c # cs \<Rightarrow> (wordchar c \<or> c = CHR ''#'') \<and> (\<forall>ch \<in> set cs. wordchar ch))"

lemma expand_entity_parser:
  "flags p' = flags p \<Longrightarrow> stack p' = stack p \<Longrightarrow> expand_entity E p' name = expand_entity E p name"
  by (simp add: expand_entity_def)

lemma kv_value_entity:
  assumes ug: "ungot p = None" and cf: "conf p = CHR ''&'' # name @ CHR '';'' # rest"
    and ec: "entity_chars name"
  shows "kv_value E p key val =
           (case expand_entity E p name of
              Inl e \<Rightarrow> (Inl e, after_entity p name rest)
            | Inr str \<Rightarrow> kv_value E (after_entity p name rest) key (val @ str))"
proof -
  let ?p1 = "p\<lparr> conf := name @ CHR '';'' # rest,
                 current := (current p)\<lparr> pos_column := pos_column (current p) + 1 \<rparr> \<rparr>"
  from ug cf have n: "next_char p = (Inr (CHR ''&''), ?p1)"
    by (simp add: next_char_def next_ch_def)
  have en: "entity_name ?p1 key [] = (Inr name, after_entity p name rest)"
  proof (cases name)
    case Nil
    with entity_name_reads[of ?p1 "[]" rest key "[]"] ug show ?thesis
      by (simp add: after_entity_def)
  next
    case (Cons c cs)
    show ?thesis
    proof (cases "c = CHR ''#''")
      case True
      with Cons ec entity_name_reads_numeric[of ?p1 cs rest key] ug show ?thesis
        by (simp add: after_entity_def entity_chars_def)
    next
      case False
      with Cons ec entity_name_reads[of ?p1 name rest key "[]"] ug show ?thesis
        by (simp add: after_entity_def entity_chars_def)
    qed
  qed
  have ex: "expand_entity E (after_entity p name rest) name = expand_entity E p name"
    by (rule expand_entity_parser) (simp_all add: after_entity_def)
  from n en ex show ?thesis
    by (simp add: kv_value.simps[of E p] split: sum.splits)
qed

text \<open>Numeric references: what \<^verbatim>\<open>strtoul\<close> makes of a string of digits.\<close>

lemma is_digit_props:
  assumes "is_digit base ch" and "base \<le> 16"
  shows "\<not> isspace ch" and "ch \<noteq> CHR ''-''" and "ch \<noteq> CHR ''+''" and "ch \<noteq> CHR ''x''" and "ch \<noteq> CHR ''X''"
  using assms
  by (auto simp: is_digit_def digit_value_def isspace_def Let_def split: if_splits option.splits)

lemma digits_value_takeWhile:
  "\<forall>ch \<in> set ds. is_digit base ch \<Longrightarrow>
   digits_value base acc (ds @ tl') = digits_value base (digits_value base acc ds) tl'"
  by (induction ds arbitrary: acc) (auto simp: is_digit_def split: option.splits)

lemma strtoul_digits:
  assumes ds: "\<forall>ch \<in> set ds. is_digit base ch" and ne: "ds \<noteq> []" and base: "base \<le> 16"
    and tl': "case tl' of [] \<Rightarrow> True | c # cs \<Rightarrow> \<not> is_digit base c"
    and px: "base = 16 \<Longrightarrow> \<not> has_0x_prefix (ds @ tl')"
  shows "strtoul (ds @ tl') base =
           (if digits_value base 0 ds > ULONG_MAX then ULONG_MAX else digits_value base 0 ds, tl')"
proof -
  from ne obtain d ds' where d: "ds = d # ds'" by (cases ds) auto
  with ds have dd: "is_digit base d" by simp
  note dp = is_digit_props[OF dd base]
  have tw: "takeWhile (is_digit base) (ds @ tl') = ds"
    using ds tl' by (cases tl') (auto simp: takeWhile_append2 intro: takeWhile_eq_all_conv[THEN iffD2])
  have dw: "dropWhile (is_digit base) (ds @ tl') = tl'"
    using ds tl' by (cases tl') (auto simp: dropWhile_append2)
  have sp: "dropWhile isspace (ds @ tl') = ds @ tl'"
    using dp by (simp add: d)
  have neg: "(case ds @ tl' of [] \<Rightarrow> False | c # cs \<Rightarrow> c = CHR ''-'') = False"
    using dp by (simp add: d)
  have sg: "(case ds @ tl' of [] \<Rightarrow> ds @ tl'
             | c # cs \<Rightarrow> if c = CHR ''-'' \<or> c = CHR ''+'' then cs else ds @ tl') = ds @ tl'"
    using dp by (simp add: d)
  show ?thesis
  proof (cases "base = 16")
    case True
    with px have "\<not> has_0x_prefix (ds @ tl')" by simp
    then show ?thesis
      unfolding strtoul_def Let_def sp neg sg
      using ne by (simp add: tw dw)
  next
    case False
    then show ?thesis
      unfolding strtoul_def Let_def sp neg sg
      using ne by (simp add: tw dw)
  qed
qed

lemma digits_no_0x_prefix:
  "\<forall>ch \<in> set ds. is_digit base ch \<Longrightarrow> base \<le> 16 \<Longrightarrow> \<not> has_0x_prefix ds"
proof (cases ds rule: has_0x_prefix.cases)
  case (1 c0 c1 c2 cs)
  assume "\<forall>ch \<in> set ds. is_digit base ch" and b: "base \<le> 16"
  with 1 have "is_digit base c1" by simp
  from is_digit_props(4,5)[OF this b] 1 show ?thesis by simp
qed simp_all

definition invalid_numeric :: "string \<Rightarrow> exn" where
  "invalid_numeric varname =
     CoreException (''Invalid numeric character reference '' @ [CHR 0x27] @ ''&'' @ varname @ '';'' @ [CHR 0x27])"

lemma expand_entity_decimal:
  assumes ds: "\<forall>ch \<in> set ds. is_digit 10 ch" and ne: "ds \<noteq> []"
    and tl': "case tl' of [] \<Rightarrow> True | c # cs \<Rightarrow> \<not> is_digit 10 c"
  shows "expand_entity E p (CHR ''#'' # ds @ tl') =
           (if tl' = [] \<and> digits_value 10 0 ds \<le> 255 then Inr [char_of (digits_value 10 0 ds)]
            else Inl (invalid_numeric (CHR ''#'' # ds @ tl')))"
proof -
  from ne obtain d ds' where d: "ds = d # ds'" by (cases ds) auto
  with ds have "is_digit 10 d" by simp
  from is_digit_props(4)[OF this] have x: "d \<noteq> CHR ''x''" by simp
  have st: "strtoul (ds @ tl') 10 =
      (if digits_value 10 0 ds > ULONG_MAX then ULONG_MAX else digits_value 10 0 ds, tl')"
    using ds ne tl' by (intro strtoul_digits) simp_all
  show ?thesis
    using x st by (simp add: expand_entity_def char_at_def d invalid_numeric_def ULONG_MAX_def)
qed

lemma expand_entity_hex:
  assumes hs: "\<forall>ch \<in> set hs. is_digit 16 ch" and ne: "hs \<noteq> []"
    and tl': "case tl' of [] \<Rightarrow> True | c # cs \<Rightarrow> \<not> is_digit 16 c"
    and px: "\<not> has_0x_prefix (hs @ tl')"
  shows "expand_entity E p (CHR ''#'' # CHR ''x'' # hs @ tl') =
           (if tl' = [] \<and> digits_value 16 0 hs \<le> 255 then Inr [char_of (digits_value 16 0 hs)]
            else Inl (invalid_numeric (CHR ''#'' # CHR ''x'' # hs @ tl')))"
proof -
  from ne obtain d hs' where d: "hs = d # hs'" by (cases hs) auto
  have st: "strtoul (hs @ tl') 16 =
      (if digits_value 16 0 hs > ULONG_MAX then ULONG_MAX else digits_value 16 0 hs, tl')"
    using hs ne tl' px by (intro strtoul_digits) simp_all
  show ?thesis
    using st by (simp add: expand_entity_def char_at_def d invalid_numeric_def ULONG_MAX_def)
qed

lemma expand_entity_env:
  "expand_entity E p (''env.'' @ x) =
     (if flags p AND FLAG_NO_ENV \<noteq> 0
      then Inl (CoreException (''XML environment entity reference in file included with noenv=''
                               @ [DQ] @ ''yes'' @ [DQ]))
      else case getenv E x of
             None \<Rightarrow> Inl (CoreException (''Undefined XML environment entity reference ''
                                         @ [CHR 0x27] @ ''&env.'' @ x @ '';'' @ [CHR 0x27]))
           | Some envstr \<Rightarrow> Inr envstr)"
  by (simp add: expand_entity_def char_at_def split: option.splits)

lemma expand_entity_named:
  assumes "name \<noteq> []" and "char_at name 0 \<noteq> CHR ''#''" and "take 4 name \<noteq> ''env.''"
  shows "expand_entity E p name =
     (case vars (stack p) name of
        None \<Rightarrow> Inl (CoreException (''Undefined XML entity reference '' @ [CHR 0x27]
                                    @ ''&'' @ name @ '';'' @ [CHR 0x27]))
      | Some var \<Rightarrow> Inr var)"
  using assms by (simp add: expand_entity_def)

lemma tag_action_define:
  assumes "equalsci name ''define''" and "getString t ''name'' [] 0 UINT32_MAX \<noteq> []"
  shows "tag_action nested E name t myflags st =
           (Inr (), st\<lparr> vars := (vars st)(getString t ''name'' [] 0 UINT32_MAX
                                          \<mapsto> getString t ''value'' [] 0 UINT32_MAX) \<rparr>)"
  using assms by (simp add: tag_action_def equalsci_def Let_def)

text \<open>
  Some references. The third and the fourth are read by \<^verbatim>\<open>strtoul\<close> as numbers
  although they are not strings of digits.
\<close>

lemma numeric_examples:
  "expand_entity E p ''#65'' = Inr ''A''"
  "expand_entity E p ''#x41'' = Inr ''A''"
  "expand_entity E p ''#-0'' = Inr [CHR 0x00]"
  "expand_entity E p ''#x0x41'' = Inr ''A''"
  "expand_entity E p ''#256'' = Inl (invalid_numeric ''#256'')"
  "expand_entity E p ''#6a'' = Inl (invalid_numeric ''#6a'')"
  "expand_entity E p ''#'' = Inl (CoreException ''Empty numeric character reference'')"
  "expand_entity E p ''#x'' = Inl (CoreException ''Empty numeric character reference'')"
  by (simp_all add: expand_entity_def char_at_def strtoul_def isspace_def is_digit_def digit_value_def
      ULONG_MAX_def invalid_numeric_def Let_def char_of_def bit_0)
lemma wordchar_not_blank: "wordchar ch \<Longrightarrow> \<not> isspace ch \<and> ch \<noteq> CHR ''+''"
  by (auto simp: wordchar_def isalnum_def isspace_def Let_def)

lemma strtoul_no_digits:
  assumes ne: "body \<noteq> []" and sp: "\<not> isspace (char_at body 0)"
    and sg: "char_at body 0 \<noteq> CHR ''-''" "char_at body 0 \<noteq> CHR ''+''"
    and nd: "\<not> is_digit base (char_at body 0)"
    and px: "base = 16 \<Longrightarrow> \<not> has_0x_prefix body"
  shows "strtoul body base = (0, body)"
proof -
  from ne obtain c cs where b: "body = c # cs" by (cases body) auto
  with sp sg nd have c: "\<not> isspace c" "c \<noteq> CHR ''-''" "c \<noteq> CHR ''+''" "\<not> is_digit base c"
    by (simp_all add: char_at_def)
  show ?thesis
  proof (cases "base = 16")
    case True
    with px have "\<not> has_0x_prefix (c # cs)" by (simp add: b)
    with c show ?thesis by (simp add: strtoul_def b)
  next
    case False
    with c show ?thesis by (simp add: strtoul_def b)
  qed
qed

lemma takeWhile_all_iff: "(takeWhile P xs = xs) = (\<forall>x \<in> set xs. P x)"
  by (induction xs) auto

lemma expand_entity_numeric_decimal:
  assumes ne: "body \<noteq> []" and wc: "\<forall>ch \<in> set body. wordchar ch"
    and nx: "char_at body 0 \<noteq> CHR ''x''" and nm: "char_at body 0 \<noteq> CHR ''-''"
  shows "expand_entity E p (CHR ''#'' # body) =
           (if (\<forall>ch \<in> set body. is_digit 10 ch) \<and> digits_value 10 0 body \<le> 255
            then Inr [char_of (digits_value 10 0 body)]
            else Inl (invalid_numeric (CHR ''#'' # body)))"
proof -
  from ne obtain c cs where b: "body = c # cs" by (cases body) auto
  with wc have "wordchar c" by simp
  note cb = wordchar_not_blank[OF this]
  define ds where "ds = takeWhile (is_digit 10) body"
  define tl' where "tl' = dropWhile (is_digit 10) body"
  have body: "body = ds @ tl'" by (simp add: ds_def tl'_def)
  have dsd: "\<forall>ch \<in> set ds. is_digit 10 ch"
    by (auto simp: ds_def dest: set_takeWhileD)
  have tld: "case tl' of [] \<Rightarrow> True | c # cs \<Rightarrow> \<not> is_digit 10 c"
  proof (cases tl')
    case Nil
    then show ?thesis by simp
  next
    case (Cons a l)
    then have "dropWhile (is_digit 10) body \<noteq> []" by (simp add: tl'_def)
    from hd_dropWhile[OF this] Cons show ?thesis by (simp add: tl'_def)
  qed
  have all: "(\<forall>ch \<in> set body. is_digit 10 ch) = (tl' = [])"
    by (auto simp: tl'_def)
  show ?thesis
  proof (cases "ds = []")
    case True
    with b have nd: "\<not> is_digit 10 (char_at body 0)"
      by (auto simp: ds_def char_at_def split: if_splits)
    then have nall: "\<not> (\<forall>ch \<in> set body. is_digit 10 ch)"
      using b by (auto simp: char_at_def)
    have "strtoul body 10 = (0, body)"
      using ne cb nm nd b by (intro strtoul_no_digits) (simp_all add: char_at_def)
    with ne nx nall show ?thesis
      by (simp add: expand_entity_def char_at_def b invalid_numeric_def)
  next
    case False
    from expand_entity_decimal[OF dsd False tld, of E p] body all
    show ?thesis by (cases "tl' = []") simp_all
  qed
qed

lemma expand_entity_numeric_hex:
  assumes ne: "body \<noteq> []" and wc: "\<forall>ch \<in> set body. wordchar ch"
    and nm: "char_at body 0 \<noteq> CHR ''-''" and px: "\<not> has_0x_prefix body"
  shows "expand_entity E p (CHR ''#'' # CHR ''x'' # body) =
           (if (\<forall>ch \<in> set body. is_digit 16 ch) \<and> digits_value 16 0 body \<le> 255
            then Inr [char_of (digits_value 16 0 body)]
            else Inl (invalid_numeric (CHR ''#'' # CHR ''x'' # body)))"
proof -
  from ne obtain c cs where b: "body = c # cs" by (cases body) auto
  with wc have "wordchar c" by simp
  note cb = wordchar_not_blank[OF this]
  define ds where "ds = takeWhile (is_digit 16) body"
  define tl' where "tl' = dropWhile (is_digit 16) body"
  have body: "body = ds @ tl'" by (simp add: ds_def tl'_def)
  have dsd: "\<forall>ch \<in> set ds. is_digit 16 ch"
    by (auto simp: ds_def dest: set_takeWhileD)
  have tld: "case tl' of [] \<Rightarrow> True | c # cs \<Rightarrow> \<not> is_digit 16 c"
  proof (cases tl')
    case Nil
    then show ?thesis by simp
  next
    case (Cons a l)
    then have "dropWhile (is_digit 16) body \<noteq> []" by (simp add: tl'_def)
    from hd_dropWhile[OF this] Cons show ?thesis by (simp add: tl'_def)
  qed
  have all: "(\<forall>ch \<in> set body. is_digit 16 ch) = (tl' = [])"
    by (auto simp: tl'_def)
  show ?thesis
  proof (cases "ds = []")
    case True
    with b have nd: "\<not> is_digit 16 (char_at body 0)"
      by (auto simp: ds_def char_at_def split: if_splits)
    then have nall: "\<not> (\<forall>ch \<in> set body. is_digit 16 ch)"
      using b by (auto simp: char_at_def)
    have "strtoul body 16 = (0, body)"
      using ne cb nm nd b px by (intro strtoul_no_digits) (simp_all add: char_at_def)
    with ne nall show ?thesis
      by (simp add: expand_entity_def char_at_def b invalid_numeric_def)
  next
    case False
    from px body have "\<not> has_0x_prefix (ds @ tl')" by simp
    from expand_entity_hex[OF dsd False tld this, of E p] body all
    show ?thesis by (cases "tl' = []") simp_all
  qed
qed

text \<open>
  C5 (as amended). Inside a quoted value, \<open>&name;\<close> is replaced by what
  \<open>expand_entity\<close> gives for the name, or the exception it gives is thrown, whatever the
  rest of the parser's state. \<open>&#65;\<close> and \<open>&#x41;\<close> give \<open>A\<close>. A numeric reference
  (\<open>#\<close> and then word characters, read as decimal digits, or as hexadecimal digits after
  \<open>#x\<close>) gives the byte of its value when all its characters are digits and the value is
  at most 255; it is an error when the value is larger, when a character is not a digit,
  and when there is no digit at all. References that begin with a minus sign, or after
  \<open>#x\<close> with a further \<open>0x\<close>, are left aside. \<open>&amp;\<close> and \<open>&quot;\<close> give \<open>&\<close> and
  the double quote as long as the variables \<open>amp\<close> and \<open>quot\<close> have the values the
  parse stack starts with: they are looked up like any other name. \<open>&env.XYZ;\<close> gives the
  value of the environment variable, and is an error when the file's flags have \<open>noenv\<close>
  or the variable is unset. Any other name gives the value of the variable, and is an
  error when there is none; a \<open>define\<close> tag with a name sets the variable of that name to
  the tag's value.
\<close>

theorem entity_expansion:
  "(ungot p = None \<and> conf p = CHR ''&'' # name @ CHR '';'' # rest \<and> entity_chars name \<longrightarrow>
      kv_value E p key val =
        (case expand_entity E p name of
           Inl e \<Rightarrow> (Inl e, after_entity p name rest)
         | Inr str \<Rightarrow> kv_value E (after_entity p name rest) key (val @ str)))
   \<and> expand_entity E p ''#65'' = Inr ''A''
   \<and> expand_entity E p ''#x41'' = Inr ''A''
   \<and> (body \<noteq> [] \<and> (\<forall>ch \<in> set body. wordchar ch)
        \<and> char_at body 0 \<noteq> CHR ''x'' \<and> char_at body 0 \<noteq> CHR ''-'' \<longrightarrow>
        expand_entity E p (CHR ''#'' # body) =
          (if (\<forall>ch \<in> set body. is_digit 10 ch) \<and> digits_value 10 0 body \<le> 255
           then Inr [char_of (digits_value 10 0 body)]
           else Inl (invalid_numeric (CHR ''#'' # body))))
   \<and> (hbody \<noteq> [] \<and> (\<forall>ch \<in> set hbody. wordchar ch)
        \<and> char_at hbody 0 \<noteq> CHR ''-'' \<and> \<not> has_0x_prefix hbody \<longrightarrow>
        expand_entity E p (CHR ''#'' # CHR ''x'' # hbody) =
          (if (\<forall>ch \<in> set hbody. is_digit 16 ch) \<and> digits_value 16 0 hbody \<le> 255
           then Inr [char_of (digits_value 16 0 hbody)]
           else Inl (invalid_numeric (CHR ''#'' # CHR ''x'' # hbody))))
   \<and> expand_entity E p ''#'' = Inl (CoreException ''Empty numeric character reference'')
   \<and> expand_entity E p ''#x'' = Inl (CoreException ''Empty numeric character reference'')
   \<and> (vars (stack p) ''amp'' = Some ''&'' \<longrightarrow> expand_entity E p ''amp'' = Inr ''&'')
   \<and> (vars (stack p) ''quot'' = Some [DQ] \<longrightarrow> expand_entity E p ''quot'' = Inr [DQ])
   \<and> vars initial_stack ''amp'' = Some ''&''
   \<and> vars initial_stack ''quot'' = Some [DQ]
   \<and> (flags p AND FLAG_NO_ENV = 0 \<and> getenv E xyz = Some envstr \<longrightarrow>
        expand_entity E p (''env.'' @ xyz) = Inr envstr)
   \<and> (flags p AND FLAG_NO_ENV \<noteq> 0 \<or> getenv E xyz = None \<longrightarrow>
        (\<exists>reason. expand_entity E p (''env.'' @ xyz) = Inl (CoreException reason)))
   \<and> (foo \<noteq> [] \<and> char_at foo 0 \<noteq> CHR ''#'' \<and> take 4 foo \<noteq> ''env.'' \<longrightarrow>
        (case vars (stack p) foo of
           Some var \<Rightarrow> expand_entity E p foo = Inr var
         | None \<Rightarrow> (\<exists>reason. expand_entity E p foo = Inl (CoreException reason))))
   \<and> (equalsci tname ''define'' \<and> getString t ''name'' [] 0 UINT32_MAX = foo \<and> foo \<noteq> [] \<longrightarrow>
        tag_action nested E tname t myflags st =
          (Inr (), st\<lparr> vars := (vars st)(foo \<mapsto> getString t ''value'' [] 0 UINT32_MAX) \<rparr>))"
proof -
  have dec: "body \<noteq> [] \<and> (\<forall>ch \<in> set body. wordchar ch)
        \<and> char_at body 0 \<noteq> CHR ''x'' \<and> char_at body 0 \<noteq> CHR ''-'' \<longrightarrow>
        expand_entity E p (CHR ''#'' # body) =
          (if (\<forall>ch \<in> set body. is_digit 10 ch) \<and> digits_value 10 0 body \<le> 255
           then Inr [char_of (digits_value 10 0 body)]
           else Inl (invalid_numeric (CHR ''#'' # body)))"
    using expand_entity_numeric_decimal[of body E p] by blast
  have hex: "hbody \<noteq> [] \<and> (\<forall>ch \<in> set hbody. wordchar ch)
        \<and> char_at hbody 0 \<noteq> CHR ''-'' \<and> \<not> has_0x_prefix hbody \<longrightarrow>
        expand_entity E p (CHR ''#'' # CHR ''x'' # hbody) =
          (if (\<forall>ch \<in> set hbody. is_digit 16 ch) \<and> digits_value 16 0 hbody \<le> 255
           then Inr [char_of (digits_value 16 0 hbody)]
           else Inl (invalid_numeric (CHR ''#'' # CHR ''x'' # hbody)))"
    using expand_entity_numeric_hex[of hbody E p] by blast
  have amp: "vars (stack p) ''amp'' = Some ''&'' \<longrightarrow> expand_entity E p ''amp'' = Inr ''&''"
    using expand_entity_named[of "''amp''" E p] by (simp add: char_at_def)
  have quot: "vars (stack p) ''quot'' = Some [DQ] \<longrightarrow> expand_entity E p ''quot'' = Inr [DQ]"
    using expand_entity_named[of "''quot''" E p] by (simp add: char_at_def)
  have init: "vars initial_stack ''amp'' = Some ''&''" "vars initial_stack ''quot'' = Some [DQ]"
    by (simp_all add: initial_stack_def)
  have env1: "flags p AND FLAG_NO_ENV = 0 \<and> getenv E xyz = Some envstr \<longrightarrow>
        expand_entity E p (''env.'' @ xyz) = Inr envstr"
    using expand_entity_env[of E p xyz] by simp
  have env2: "flags p AND FLAG_NO_ENV \<noteq> 0 \<or> getenv E xyz = None \<longrightarrow>
        (\<exists>reason. expand_entity E p (''env.'' @ xyz) = Inl (CoreException reason))"
    using expand_entity_env[of E p xyz] by auto
  have named: "foo \<noteq> [] \<and> char_at foo 0 \<noteq> CHR ''#'' \<and> take 4 foo \<noteq> ''env.'' \<longrightarrow>
        (case vars (stack p) foo of
           Some var \<Rightarrow> expand_entity E p foo = Inr var
         | None \<Rightarrow> (\<exists>reason. expand_entity E p foo = Inl (CoreException reason)))"
    using expand_entity_named[of foo E p] by (auto split: option.splits)
  have def: "equalsci tname ''define'' \<and> getString t ''name'' [] 0 UINT32_MAX = foo \<and> foo \<noteq> [] \<longrightarrow>
        tag_action nested E tname t myflags st =
          (Inr (), st\<lparr> vars := (vars st)(foo \<mapsto> getString t ''value'' [] 0 UINT32_MAX) \<rparr>)"
    using tag_action_define[of tname t nested E myflags st] by auto
  from kv_value_entity[of p name rest E key val] numeric_examples(1,2,7,8)[of E p]
    dec hex amp quot init env1 env2 named def
  show ?thesis by blast
qed

text \<open>A file that defines a variable and uses entities, and one that defines \<open>amp\<close> anew.\<close>

definition define_files :: os where
  "define_files =
     \<lparr> fopen = (\<lambda>path.
         if path = ''d.conf''
         then Some (''<define name='' @ [DQ] @ ''foo'' @ [DQ] @ '' value='' @ [DQ] @ ''bar'' @ [DQ] @ ''>''
                    @ ''<t v='' @ [DQ] @ ''&foo;&amp;&quot;&#65;&#x41;&env.HOME;'' @ [DQ] @ ''>'')
         else if path = ''e.conf''
         then Some (''<define name='' @ [DQ] @ ''amp'' @ [DQ] @ '' value='' @ [DQ] @ ''x'' @ [DQ] @ ''>''
                    @ ''<t v='' @ [DQ] @ ''&amp;'' @ [DQ] @ ''>'')
         else None),
       popen = (\<lambda>command. None),
       getenv = (\<lambda>name. if name = ''HOME'' then Some ''/root'' else None),
       directory_iterator = (\<lambda>dir. Inl ''No such file or directory''),
       PrependConfig = (\<lambda>path. path), Match_conf = (\<lambda>path. False),
       pos_str = (\<lambda>pos. pos_name pos @ '':'' @ ConvToStr (pos_line pos)) \<rparr>"

lemmas entity_eval =
  strtoul_def is_digit_def digit_value_def ULONG_MAX_def char_of_def bit_0

lemma define_scenario:
  "map (tag_items \<circ> snd) (output_tags (snd (ParseFile_n 1 define_files ''d.conf'' 0 [] False initial_stack)))
     = [[(''v'', ''bar&'' @ [DQ] @ ''AA/root'')]]"
  by (simp add: define_files_def initial_stack_def parser_eval entity_eval)

text \<open>
  The claim as stated fails for \<open>&amp;\<close>: after \<^verbatim>\<open><define name="amp" value="x">\<close>
  the entity expands to \<open>x\<close>.
\<close>

theorem entity_amp_counterexample:
  "map (tag_items \<circ> snd) (output_tags (snd (ParseFile_n 1 define_files ''e.conf'' 0 [] False initial_stack)))
     = [[(''v'', ''x'')]]"
  by (simp add: define_files_def initial_stack_def parser_eval entity_eval)

definition define_tag :: ConfigTag where
  "define_tag = \<lparr> tag_name = ''define'',
       tag_source = \<lparr> pos_name = ''d.conf'', pos_line = 1, pos_column = 1 \<rparr>,
       tag_items = [(''name'', ''foo''), (''value'', ''bar'')] \<rparr>"

definition entity_parser :: Parser where
  "entity_parser =
     \<lparr> stack = initial_stack\<lparr> reading := [''d.conf''], vars := (vars initial_stack)(''foo'' \<mapsto> ''bar'') \<rparr>,
       flags = 0,
       conf = ''&foo;'' @ [DQ] @ ''>'',
       current = \<lparr> pos_name = ''d.conf'', pos_line = 1, pos_column = 35 \<rparr>,
       last_tag = \<lparr> pos_name = ''d.conf'', pos_line = 1, pos_column = 30 \<rparr>,
       tag = Some \<lparr> tag_name = ''t'',
                    tag_source = \<lparr> pos_name = ''d.conf'', pos_line = 1, pos_column = 30 \<rparr>,
                    tag_items = [] \<rparr>,
       ungot = None,
       mandatory_tag = [] \<rparr>"

lemma entity_parser_facts:
  "ungot entity_parser = None"
  "conf entity_parser = CHR ''&'' # ''foo'' @ CHR '';'' # ([DQ] @ ''>'')"
  "entity_chars ''foo''"
  "flags entity_parser AND FLAG_NO_ENV = 0"
  "getenv define_files ''HOME'' = Some ''/root''"
  "getenv define_files ''NOPE'' = None"
  "vars (stack entity_parser) ''foo'' = Some ''bar''"
  "vars (stack entity_parser) ''nope'' = None"
  "vars (stack entity_parser) ''amp'' = Some ''&''"
  "equalsci ''define'' ''define''"
  "getString define_tag ''name'' [] 0 UINT32_MAX = ''foo''"
  "getString define_tag ''value'' [] 0 UINT32_MAX = ''bar''"
  by (simp_all add: entity_parser_def entity_chars_def wordchar_def isalnum_def define_files_def
      initial_stack_def equalsci_def getString_def readString_def define_tag_def UINT32_MAX_def
      FLAG_NO_ENV_def)

theorem entity_expansion_witness:
  "kv_value define_files entity_parser ''v'' [] =
     kv_value define_files (after_entity entity_parser ''foo'' ([DQ] @ ''>'')) ''v'' ''bar''
   \<and> expand_entity define_files entity_parser ''#65'' = Inr ''A''
   \<and> expand_entity define_files entity_parser ''amp'' = Inr ''&''
   \<and> expand_entity define_files entity_parser (''env.'' @ ''HOME'') = Inr ''/root''
   \<and> (\<exists>reason. expand_entity define_files entity_parser (''env.'' @ ''NOPE'') = Inl (CoreException reason))
   \<and> expand_entity define_files entity_parser ''foo'' = Inr ''bar''
   \<and> (\<exists>reason. expand_entity define_files entity_parser ''nope'' = Inl (CoreException reason))
   \<and> tag_action (ParseFile_n 0 define_files) define_files ''define'' define_tag 0 initial_stack =
       (Inr (), initial_stack\<lparr> vars := (vars initial_stack)(''foo'' \<mapsto> ''bar'') \<rparr>)
   \<and> expand_entity define_files entity_parser ''#255'' = Inr [CHR 0xFF]
   \<and> expand_entity define_files entity_parser ''#x100'' = Inl (invalid_numeric ''#x100'')
   \<and> expand_entity define_files entity_parser ''#abc'' = Inl (invalid_numeric ''#abc'')
   \<and> expand_entity define_files entity_parser ''#xg'' = Inl (invalid_numeric ''#xg'')"
proof -
  note A = entity_expansion[where p = entity_parser and name = "''foo''" and rest = "[DQ] @ ''>''"
      and E = define_files and key = "''v''" and val = "[]" and xyz = "''HOME''" and envstr = "''/root''"
      and foo = "''foo''" and tname = "''define''" and t = define_tag
      and nested = "ParseFile_n 0 define_files" and myflags = 0 and st = initial_stack
      and body = "''255''" and hbody = "''100''"]
  note B = entity_expansion[where p = entity_parser and E = define_files and xyz = "''NOPE''"
      and foo = "''nope''" and body = "''abc''" and hbody = "''g''"]
  from A entity_parser_facts have 1: "expand_entity define_files entity_parser ''foo'' = Inr ''bar''"
    by (simp add: char_at_def)
  from A entity_parser_facts have 2: "kv_value define_files entity_parser ''v'' [] =
     (case expand_entity define_files entity_parser ''foo'' of
           Inl e \<Rightarrow> (Inl e, after_entity entity_parser ''foo'' ([DQ] @ ''>''))
         | Inr str \<Rightarrow> kv_value define_files (after_entity entity_parser ''foo'' ([DQ] @ ''>'')) ''v'' ([] @ str))"
    by blast
  from A have 3: "expand_entity define_files entity_parser ''#65'' = Inr ''A''" by blast
  from A entity_parser_facts have 4: "expand_entity define_files entity_parser ''amp'' = Inr ''&''"
    by blast
  from A entity_parser_facts have 5: "expand_entity define_files entity_parser (''env.'' @ ''HOME'') = Inr ''/root''"
    by blast
  from B entity_parser_facts
  have 6: "\<exists>reason. expand_entity define_files entity_parser (''env.'' @ ''NOPE'') = Inl (CoreException reason)"
    by blast
  from B entity_parser_facts
  have 7: "\<exists>reason. expand_entity define_files entity_parser ''nope'' = Inl (CoreException reason)"
    by (simp add: char_at_def)
  from A entity_parser_facts
  have 8: "tag_action (ParseFile_n 0 define_files) define_files ''define'' define_tag 0 initial_stack =
       (Inr (), initial_stack\<lparr> vars := (vars initial_stack)(''foo'' \<mapsto> ''bar'') \<rparr>)"
    by simp
  from A have 9: "expand_entity define_files entity_parser ''#255'' = Inr [CHR 0xFF]"
    by (simp add: wordchar_def isalnum_def is_digit_def digit_value_def char_at_def char_of_def bit_0)
  from A have 10: "expand_entity define_files entity_parser ''#x100'' = Inl (invalid_numeric ''#x100'')"
    by (simp add: wordchar_def isalnum_def is_digit_def digit_value_def char_at_def)
  from B have 11: "expand_entity define_files entity_parser ''#abc'' = Inl (invalid_numeric ''#abc'')"
    by (simp add: wordchar_def isalnum_def is_digit_def digit_value_def char_at_def)
  from B have 12: "expand_entity define_files entity_parser ''#xg'' = Inl (invalid_numeric ''#xg'')"
    by (simp add: wordchar_def isalnum_def is_digit_def digit_value_def char_at_def)
  from 1 2 3 4 5 6 7 8 9 10 11 12 show ?thesis by simp
qed

section \<open>Timers (timer.cpp)\<close>

text \<open>
  A timer has its trigger time, its interval in seconds, whether it repeats, and the
  callback \<^verbatim>\<open>Tick(TIME)\<close>, which returns whether the timer is to go on. \<^verbatim>\<open>time_t\<close>
  is \<^typ>\<open>int\<close> and the \<^verbatim>\<open>unsigned long\<close> interval is \<^typ>\<open>nat\<close>: times are
  seconds since the epoch, and a sum \<^verbatim>\<open>TIME + interval\<close> beyond 64 bits is outside the
  model. The callback is modelled by the value it returns; a callback that adds, removes
  or changes timers of the manager itself is outside the model too.
\<close>

record Timer =
  trigger :: int
  secs :: nat
  repeat :: bool
  Tick :: "int \<Rightarrow> bool"

text \<open>
  The manager holds a multimap from trigger time to timer pointer. Pointers are numbers
  and \<open>objects\<close> is the memory they point into. The multimap is the list of its entries
  in iteration order: ascending keys, entries of equal keys in the order of insertion.
  \<open>fired\<close> records the timers whose callback has run, in order.
\<close>

record TimerManager =
  objects :: "nat \<Rightarrow> Timer"
  Timers :: "(int \<times> nat) list"
  fired :: "nat list"

text \<open>
  \<^verbatim>\<open>std::multimap::emplace\<close>: the new entry goes after the entries whose key is not
  greater, before the first entry with a greater key.
\<close>

fun emplace :: "int \<Rightarrow> nat \<Rightarrow> (int \<times> nat) list \<Rightarrow> (int \<times> nat) list" where
  "emplace k t [] = [(k, t)]"
| "emplace k t (e # es) = (if fst e \<le> k then e # emplace k t es else (k, t) # e # es)"


text \<open>
  \<open>DelTimer\<close> erases the first entry with the timer's pointer among those with the
  timer's trigger as key.
\<close>

fun erase_first :: "int \<Rightarrow> nat \<Rightarrow> (int \<times> nat) list \<Rightarrow> (int \<times> nat) list" where
  "erase_first k t [] = []"
| "erase_first k t (e # es) = (if e = (k, t) then es else e # erase_first k t es)"

definition DelTimer :: "nat \<Rightarrow> TimerManager \<Rightarrow> TimerManager" where
  "DelTimer t m = m\<lparr> Timers := erase_first (trigger (objects m t)) t (Timers m) \<rparr>"

text \<open>
  The loop of \<open>TickTimers\<close> walks the multimap with an iterator \<open>i\<close> while it erases
  and inserts entries. Its state: the memory, the entries before \<open>i\<close>, the entries from
  \<open>i\<close> on, and the timers fired so far. The multimap itself is \<open>before @ after\<close>.
\<close>

record tick_state =
  mem :: "nat \<Rightarrow> Timer"
  before :: "(int \<times> nat) list"
  after :: "(int \<times> nat) list"
  ticked :: "nat list"

text \<open>
  \<open>AddTimer\<close> during the loop: the entry is emplaced in the multimap, and the iterator
  still points at the entry it pointed at. The entry lands behind the iterator when no
  key before the iterator is greater and the key at the iterator is not greater.
\<close>

definition emplace_at :: "int \<Rightarrow> nat \<Rightarrow> tick_state \<Rightarrow> tick_state" where
  "emplace_at k t s =
     (if (\<forall>e \<in> set (before s). fst e \<le> k) \<and> after s \<noteq> [] \<and> fst (hd (after s)) \<le> k
      then s\<lparr> after := emplace k t (after s) \<rparr>
      else s\<lparr> before := emplace k t (before s) \<rparr>)"

text \<open>
  One pass through the body of the \<^verbatim>\<open>for\<close> loop: \<^term>\<open>None\<close> when the loop ends
  (\<open>i\<close> is at the end, or the timer at \<open>i\<close> is not due), else the state after the body.
\<close>

definition tick_step :: "int \<Rightarrow> tick_state \<Rightarrow> tick_state option" where
  "tick_step TIME s =
     (case after s of
        [] \<Rightarrow> None
      | (k, t) # rest \<Rightarrow>
          if trigger (mem s t) > TIME then None
          else
            let s1 = s\<lparr> after := rest, ticked := ticked s @ [t] \<rparr>
            in if \<not> Tick (mem s1 t) TIME then Some s1
               else if repeat (mem s1 t)
               then (let s2 = s1\<lparr> mem := (mem s1)(t := (mem s1 t)\<lparr> trigger := TIME + int (secs (mem s1 t)) \<rparr>) \<rparr>
                     in Some (emplace_at (trigger (mem s2 t)) t s2))
               else Some s1)"

text \<open>
  The loop may go on for ever (two repeating timers with interval 0 keep each other due),
  so it runs on fuel: \<^term>\<open>None\<close> when the fuel does not suffice.
\<close>

fun tick_loop :: "nat \<Rightarrow> int \<Rightarrow> tick_state \<Rightarrow> tick_state option" where
  "tick_loop 0 TIME s = (case tick_step TIME s of None \<Rightarrow> Some s | Some s' \<Rightarrow> None)"
| "tick_loop (Suc n) TIME s = (case tick_step TIME s of None \<Rightarrow> Some s | Some s' \<Rightarrow> tick_loop n TIME s')"


text \<open>The entries of the loop's state are those of the multimap after \<open>emplace\<close>.\<close>

lemma emplace_append_le:
  "\<forall>e \<in> set xs. fst e \<le> k \<Longrightarrow> emplace k t (xs @ ys) = xs @ emplace k t ys"
  by (induction xs) auto

lemma emplace_append_gt:
  "\<exists>e \<in> set xs. fst e > k \<Longrightarrow> emplace k t (xs @ ys) = emplace k t xs @ ys"
  by (induction xs) auto

lemma emplace_at_multimap:
  "before (emplace_at k t s) @ after (emplace_at k t s) = emplace k t (before s @ after s)"
proof (cases "\<forall>e \<in> set (before s). fst e \<le> k")
  case False
  then show ?thesis
    using emplace_append_gt[of "before s" k t "after s"]
    by (auto simp: emplace_at_def not_le)
next
  case True
  then show ?thesis
    using emplace_append_le[of "before s" k t "after s"] emplace_append_le[of "before s" k t "[]"]
    by (cases "after s") (auto simp: emplace_at_def)
qed

lemma emplace_at_iterator:
  "after s \<noteq> [] \<Longrightarrow> after (emplace_at k t s) \<noteq> [] \<and> hd (after (emplace_at k t s)) = hd (after s)"
  by (cases "after s") (auto simp: emplace_at_def)


























text \<open>
  Two repeating timers of interval 0 that are due together keep each other due: each is
  put back behind the other, and the loop of \<open>TickTimers\<close> does not end, whatever the
  fuel.
\<close>

definition timer_Z :: Timer where
  "timer_Z = \<lparr> trigger = 12, secs = 0, repeat = True, Tick = (\<lambda>TIME. True) \<rparr>"

definition spin :: "nat list \<Rightarrow> tick_state" where
  "spin fired_so_far =
     \<lparr> mem = (\<lambda>t. timer_Z), before = [], after = [(12, 0), (12, 1)], ticked = fired_so_far \<rparr>"

lemma spin_two_steps:
  "tick_loop (Suc (Suc n)) 12 (spin fired_so_far) = tick_loop n 12 (spin (fired_so_far @ [0, 1]))"
  by (simp add: spin_def timer_Z_def tick_step_def emplace_at_def Let_def fun_upd_idem)

lemma interval_0_never_ends: "tick_loop fuel 12 (spin fired_so_far) = None"
proof (induction fuel arbitrary: fired_so_far rule: less_induct)
  case (less fuel)
  show ?case
  proof (cases fuel)
    case 0
    then show ?thesis by (simp add: spin_def timer_Z_def tick_step_def emplace_at_def Let_def)
  next
    case (Suc n)
    show ?thesis
    proof (cases n)
      case 0
      with Suc show ?thesis
        by (simp add: spin_def timer_Z_def tick_step_def emplace_at_def Let_def fun_upd_idem)
    next
      case (Suc k)
      with \<open>fuel = Suc n\<close> less.IH[of k "fired_so_far @ [0, 1]"] show ?thesis
        by (simp only: spin_two_steps)
    qed
  qed
qed

section \<open>The mode parser (mode.cpp, ModeParser::TryMode and ModeParser::ProcessSingle)\<close>

text \<open>
  A change is a \<^verbatim>\<open>Modes::Change\<close> without its handler, which is passed beside it (a
  handler has callbacks on changes, so a change cannot hold one). A user is the part
  of \<^verbatim>\<open>User\<close> that the mode parser reads. A channel is its name; what the parser reads
  of it is in the state.

  Modelled from the spec: the oper record of a user (\<open>oper\<close> is the name of the oper
  type, \<^verbatim>\<open>IsOper()\<close> is whether there is one) and \<^verbatim>\<open>HasModePermission\<close>, here by the
  name of the mode; the headers are not among the sources.
\<close>

datatype ModeAction = MODEACTION_DENY | MODEACTION_ALLOW

datatype ParamSpec = PARAM_NONE | PARAM_SETONLY | PARAM_ALWAYS

datatype ModeType = MODETYPE_USER | MODETYPE_CHANNEL

datatype ModeProcessFlag = MODE_MERGE | MODE_LOCALONLY | MODE_CHECKACCESS

datatype Numeric = ERR_CHANOPRIVSNEEDED | ERR_NOPRIVILEGES | ERR_INVALIDMODEPARAM

record Change =
  adding :: bool
  param :: string

record User =
  nick :: string
  IS_LOCAL :: bool
  oper :: "string option"
  HasModePermission :: "string \<Rightarrow> bool"

text \<open>
  The state of the server: the numerics written to users (\<^verbatim>\<open>WriteNumeric\<close>), the mode
  events sent out (to a channel or to a user, with the changes by the name of their
  handler), and everything else, which only the callbacks read and write.
\<close>

record 'w server =
  numerics :: "(string \<times> Numeric \<times> string list) list"
  mode_events :: "(string option \<times> string option \<times> (string \<times> Change) list) list"
  world :: 'w

definition WriteNumeric :: "User \<Rightarrow> Numeric \<Rightarrow> string list \<Rightarrow> 'w server \<Rightarrow> 'w server" where
  "WriteNumeric user numeric args st = st\<lparr> numerics := numerics st @ [(nick user, numeric, args)] \<rparr>"

text \<open>
  A mode handler: the members and the virtual methods that \<open>TryMode\<close> and \<open>ProcessSingle\<close>
  use. A callback gets the change by reference and may write to it, so it returns the
  change with its result.

  Modelled from the spec: \<^verbatim>\<open>GetLevelRequired\<close>, the minimum rank required to set and
  to unset; \<^verbatim>\<open>NeedsOper\<close>, the oper-only flag; \<^verbatim>\<open>IsListMode\<close>.
\<close>

record 'w ModeHandler =
  name :: string
  GetModeChar :: char
  parameters_taken :: ParamSpec
  syntax_hint :: string
  ranktoset :: nat
  ranktounset :: nat
  NeedsOper :: bool
  IsListMode :: bool
  AccessCheck :: "User \<Rightarrow> string \<Rightarrow> Change \<Rightarrow> 'w server \<Rightarrow> ModResult \<times> Change \<times> 'w server"
  OnModeChange :: "User \<Rightarrow> User option \<Rightarrow> string option \<Rightarrow> Change \<Rightarrow> 'w server
                   \<Rightarrow> ModeAction \<times> Change \<times> 'w server"
  ResolveModeConflict :: "string \<Rightarrow> string \<Rightarrow> string \<Rightarrow> 'w server \<Rightarrow> bool"

definition NeedsParam :: "'w ModeHandler \<Rightarrow> bool \<Rightarrow> bool" where
  "NeedsParam mh adding0 =
     (case parameters_taken mh of
        PARAM_ALWAYS \<Rightarrow> True
      | PARAM_SETONLY \<Rightarrow> adding0
      | PARAM_NONE \<Rightarrow> False)"

definition GetLevelRequired :: "'w ModeHandler \<Rightarrow> bool \<Rightarrow> nat" where
  "GetLevelRequired mh adding0 = (if adding0 then ranktoset mh else ranktounset mh)"

record 'w ModeWatcher =
  watched :: string
  GetModeType :: ModeType
  BeforeMode :: "User \<Rightarrow> User option \<Rightarrow> string option \<Rightarrow> Change \<Rightarrow> 'w server
                 \<Rightarrow> bool \<times> Change \<times> 'w server"
  AfterMode :: "User \<Rightarrow> User option \<Rightarrow> string option \<Rightarrow> Change \<Rightarrow> 'w server \<Rightarrow> 'w server"

record PrefixMode =
  prefix_name :: string
  GetPrefixRank :: nat

text \<open>
  The mode parser and what it reaches through \<^verbatim>\<open>ServerInstance\<close>: the \<^verbatim>\<open>OnRawMode\<close> and
  \<^verbatim>\<open>OnMode\<close> hooks of the modules in their order, the mode watchers in the order of
  \<^verbatim>\<open>modewatchermap\<close>, the prefix modes, the limits, and the reads of a channel.

  Modelled from the spec: \<^verbatim>\<open>MODE_PARAM_MAX\<close> and \<^verbatim>\<open>Limits.MaxModes\<close> are numbers given
  with the parser; \<^verbatim>\<open>Channel::GetPrefixValue\<close>, \<^verbatim>\<open>Channel::IsModeSet\<close> and
  \<^verbatim>\<open>Channel::GetModeParameter\<close> read the state. A hook and a read of the channel get the
  handler of a change by its name.
\<close>

record 'w ModeParser =
  OnRawMode :: "(User \<Rightarrow> string option \<Rightarrow> string \<Rightarrow> Change \<Rightarrow> 'w server
                 \<Rightarrow> ModResult \<times> 'w server) list"
  OnMode :: "(User \<Rightarrow> User option \<Rightarrow> string option \<Rightarrow> (string \<times> Change) list
              \<Rightarrow> ModeProcessFlag set \<Rightarrow> 'w server \<Rightarrow> 'w server) list"
  modewatchermap :: "'w ModeWatcher list"
  GetPrefixModes :: "PrefixMode list"
  MODE_PARAM_MAX :: nat
  MaxModes :: nat
  GetPrefixValue :: "string \<Rightarrow> User \<Rightarrow> 'w server \<Rightarrow> nat"
  IsModeSet :: "string \<Rightarrow> string \<Rightarrow> 'w server \<Rightarrow> bool"
  GetModeParameter :: "string \<Rightarrow> string \<Rightarrow> 'w server \<Rightarrow> string"

text \<open>
  Modelled from the spec: \<^verbatim>\<open>FIRST_MOD_RESULT\<close> calls the hook of each module in turn
  and stops at the first result that is not \<^verbatim>\<open>MOD_RES_PASSTHRU\<close>.
\<close>

fun FIRST_MOD_RESULT ::
  "('w server \<Rightarrow> ModResult \<times> 'w server) list \<Rightarrow> 'w server \<Rightarrow> ModResult \<times> 'w server" where
  "FIRST_MOD_RESULT [] st = (MOD_RES_PASSTHRU, st)"
| "FIRST_MOD_RESULT (hook # hooks) st =
     (case hook st of
        (res, st') \<Rightarrow> if res \<noteq> MOD_RES_PASSTHRU then (res, st') else FIRST_MOD_RESULT hooks st')"

text \<open>
  The loop over the prefix modes in \<open>TryMode\<close>: the first of the prefix modes of the
  lowest rank among those whose rank suffices.
\<close>

fun neededmh_loop :: "nat \<Rightarrow> PrefixMode list \<Rightarrow> PrefixMode option \<Rightarrow> PrefixMode option" where
  "neededmh_loop neededrank [] neededmh = neededmh"
| "neededmh_loop neededrank (privmh # prefixmodes) neededmh =
     neededmh_loop neededrank prefixmodes
       (if GetPrefixRank privmh \<ge> neededrank
        then (case neededmh of
                None \<Rightarrow> Some privmh
              | Some best \<Rightarrow> if GetPrefixRank privmh < GetPrefixRank best then Some privmh else neededmh)
        else neededmh)"

text \<open>
  The access check of \<open>TryMode\<close> (the block under \<^verbatim>\<open>chan && !SkipACL && ...\<close>): whether
  the change may go on, the change, and the state.
\<close>

definition access_check ::
  "'w ModeParser \<Rightarrow> User \<Rightarrow> string option \<Rightarrow> 'w ModeHandler \<Rightarrow> Change \<Rightarrow> bool \<Rightarrow> ModResult
   \<Rightarrow> 'w server \<Rightarrow> bool \<times> Change \<times> 'w server" where
  "access_check P user chan mh mcitem SkipACL raw_result st =
     (case chan of
        None \<Rightarrow> (True, mcitem, st)
      | Some c \<Rightarrow>
          if SkipACL \<or> raw_result = MOD_RES_ALLOW then (True, mcitem, st)
          else
            (case AccessCheck mh user c mcitem st of
               (MOD_RESULT, mcitem', st') \<Rightarrow>
                 if MOD_RESULT = MOD_RES_DENY then (False, mcitem', st')
                 else if MOD_RESULT = MOD_RES_PASSTHRU
                 then (let neededrank = GetLevelRequired mh (adding mcitem');
                           ourrank = GetPrefixValue P c user st'
                       in if ourrank < neededrank
                          then (case neededmh_loop neededrank (GetPrefixModes P) None of
                                  Some neededmh \<Rightarrow>
                                    (False, mcitem',
                                     WriteNumeric user ERR_CHANOPRIVSNEEDED
                                       [c, ''You must have channel '' @ prefix_name neededmh
                                           @ '' access or above to '' @ (if adding mcitem' then [] else ''un'')
                                           @ ''set channel mode '' @ [GetModeChar mh]] st')
                                | None \<Rightarrow>
                                    (False, mcitem',
                                     WriteNumeric user ERR_CHANOPRIVSNEEDED
                                       [c, ''You cannot '' @ (if adding mcitem' then [] else ''un'')
                                           @ ''set channel mode '' @ [GetModeChar mh]] st'))
                          else (True, mcitem', st'))
                 else (True, mcitem', st')))"

text \<open>The first loop over the mode watchers: whether all of them let the change go on.\<close>

fun before_watchers ::
  "'w ModeWatcher list \<Rightarrow> ModeType \<Rightarrow> bool \<Rightarrow> User \<Rightarrow> User option \<Rightarrow> string option \<Rightarrow> Change
   \<Rightarrow> 'w server \<Rightarrow> bool \<times> Change \<times> 'w server" where
  "before_watchers [] type needs_param user targetuser chan mcitem st = (True, mcitem, st)"
| "before_watchers (mw # watchers) type needs_param user targetuser chan mcitem st =
     (if GetModeType mw = type
      then (case BeforeMode mw user targetuser chan mcitem st of
              (ok, mcitem', st') \<Rightarrow>
                if \<not> ok then (False, mcitem', st')
                else if needs_param \<and> param mcitem' = [] then (False, mcitem', st')
                else before_watchers watchers type needs_param user targetuser chan mcitem' st')
      else before_watchers watchers type needs_param user targetuser chan mcitem st)"

fun after_watchers ::
  "'w ModeWatcher list \<Rightarrow> ModeType \<Rightarrow> User \<Rightarrow> User option \<Rightarrow> string option \<Rightarrow> Change
   \<Rightarrow> 'w server \<Rightarrow> 'w server" where
  "after_watchers [] type user targetuser chan mcitem st = st"
| "after_watchers (mw # watchers) type user targetuser chan mcitem st =
     after_watchers watchers type user targetuser chan mcitem
       (if GetModeType mw = type then AfterMode mw user targetuser chan mcitem st else st)"

text \<open>The refusal of an oper-only mode.\<close>

definition oper_refusal :: "User \<Rightarrow> 'w ModeHandler \<Rightarrow> ModeType \<Rightarrow> Change \<Rightarrow> 'w server \<Rightarrow> 'w server" where
  "oper_refusal user mh type mcitem st =
     (case oper user of
        Some oper_name \<Rightarrow>
          WriteNumeric user ERR_NOPRIVILEGES
            [''Permission Denied - Oper type '' @ oper_name @ '' does not have access to ''
             @ (if adding mcitem then [] else ''un'') @ ''set ''
             @ (if type = MODETYPE_CHANNEL then ''channel'' else ''user'') @ '' mode '' @ [GetModeChar mh]] st
      | None \<Rightarrow>
          WriteNumeric user ERR_NOPRIVILEGES
            [''Permission Denied - Only operators may ''
             @ (if adding mcitem then [] else ''un'') @ ''set ''
             @ (if type = MODETYPE_CHANNEL then ''channel'' else ''user'') @ '' mode '' @ [GetModeChar mh]] st)"

text \<open>The parameter of an adding change is cropped to \<^verbatim>\<open>MODE_PARAM_MAX\<close> characters.\<close>

definition cropped :: "'w ModeParser \<Rightarrow> Change \<Rightarrow> Change" where
  "cropped P mcitem =
     (if length (param mcitem) > MODE_PARAM_MAX P \<and> adding mcitem
      then mcitem\<lparr> param := take (MODE_PARAM_MAX P) (param mcitem) \<rparr>
      else mcitem)"

text \<open>
  \<^verbatim>\<open>ModeParser::TryMode\<close>: the action, the change as the call leaves it, and the state.
\<close>

definition TryMode ::
  "'w ModeParser \<Rightarrow> User \<Rightarrow> User option \<Rightarrow> string option \<Rightarrow> 'w ModeHandler \<Rightarrow> Change \<Rightarrow> bool
   \<Rightarrow> 'w server \<Rightarrow> ModeAction \<times> Change \<times> 'w server" where
  "TryMode P user targetuser chan mh mcitem0 SkipACL st0 =
     (let type = (if chan \<noteq> None then MODETYPE_CHANNEL else MODETYPE_USER);
          needs_param = NeedsParam mh (adding mcitem0);
          mcitem = cropped P mcitem0
      in case FIRST_MOD_RESULT (map (\<lambda>hook. hook user chan (name mh) mcitem) (OnRawMode P)) st0 of
           (MOD_RESULT, st1) \<Rightarrow>
             if IS_LOCAL user \<and> MOD_RESULT = MOD_RES_DENY then (MODEACTION_DENY, mcitem, st1)
             else
               (case access_check P user chan mh mcitem SkipACL MOD_RESULT st1 of
                  (ok, mcitem2, st2) \<Rightarrow>
                    if \<not> ok then (MODEACTION_DENY, mcitem2, st2)
                    else
                      (case before_watchers (filter (\<lambda>mw. watched mw = name mh) (modewatchermap P))
                              type needs_param user targetuser chan mcitem2 st2 of
                         (ok, mcitem3, st3) \<Rightarrow>
                           if \<not> ok then (MODEACTION_DENY, mcitem3, st3)
                           else if (chan \<noteq> None \<or> (chan = None \<and> adding mcitem3)) \<and> IS_LOCAL user
                                   \<and> NeedsOper mh \<and> \<not> HasModePermission user (name mh)
                           then (MODEACTION_DENY, mcitem3, oper_refusal user mh type mcitem3 st3)
                           else
                             (case OnModeChange mh user targetuser chan mcitem3 st3 of
                                (ma, mcitem4, st4) \<Rightarrow>
                                  if needs_param \<and> param mcitem4 = [] then (MODEACTION_DENY, mcitem4, st4)
                                  else if ma \<noteq> MODEACTION_ALLOW then (ma, mcitem4, st4)
                                  else (MODEACTION_ALLOW, mcitem4,
                                        after_watchers (filter (\<lambda>mw. watched mw = name mh) (modewatchermap P))
                                          type user targetuser chan mcitem4 st4)))))"

subsection \<open>Processing a list of changes\<close>

text \<open>
  The target of a list of changes is a channel or, without one, a user. The default
  \<^verbatim>\<open>OnParameterMissing\<close> and \<^verbatim>\<open>OnParameterInvalid\<close> of a handler write a numeric.

  Modelled from the spec: the parameters of the numeric that
  \<^verbatim>\<open>Numerics::InvalidModeParameter\<close> builds (the target, the mode letter, \<open>*\<close> and the
  message, if one is given).
\<close>

definition target_name :: "string option \<Rightarrow> User option \<Rightarrow> string" where
  "target_name chan targetuser =
     (case chan of
        Some c \<Rightarrow> c
      | None \<Rightarrow> (case targetuser of Some dest \<Rightarrow> nick dest | None \<Rightarrow> []))"

definition OnParameterMissing ::
  "'w ModeHandler \<Rightarrow> User \<Rightarrow> User option \<Rightarrow> string option \<Rightarrow> 'w server \<Rightarrow> 'w server" where
  "OnParameterMissing mh user dest chan st =
     (let message = ''You must specify a parameter for the '' @ name mh @ '' mode.''
                    @ (if syntax_hint mh \<noteq> [] then '' Syntax: '' @ syntax_hint mh @ ''.'' else [])
      in WriteNumeric user ERR_INVALIDMODEPARAM
           [target_name chan dest, [GetModeChar mh], ''*'', message] st)"

definition OnParameterInvalid ::
  "'w ModeHandler \<Rightarrow> User \<Rightarrow> string option \<Rightarrow> User option \<Rightarrow> string \<Rightarrow> 'w server \<Rightarrow> 'w server" where
  "OnParameterInvalid mh user targetchannel targetuser parameter st =
     WriteNumeric user ERR_INVALIDMODEPARAM
       [target_name targetchannel targetuser, [GetModeChar mh], ''*''] st"

definition IsModeParamValid ::
  "User \<Rightarrow> string option \<Rightarrow> User option \<Rightarrow> 'w ModeHandler \<Rightarrow> Change \<Rightarrow> 'w server \<Rightarrow> bool \<times> 'w server" where
  "IsModeParamValid user targetchannel targetuser mh item st =
     (if param item = [] then (False, OnParameterMissing mh user targetuser targetchannel st)
      else if hd (param item) = CHR '':'' \<or> CHR '' '' \<in> set (param item)
      then (False, OnParameterInvalid mh user targetchannel targetuser (param item) st)
      else (True, st))"

definition ShouldApplyMergedMode ::
  "'w ModeParser \<Rightarrow> string option \<Rightarrow> 'w ModeHandler \<Rightarrow> Change \<Rightarrow> 'w server \<Rightarrow> bool" where
  "ShouldApplyMergedMode P chan mh item st =
     (case chan of
        None \<Rightarrow> True
      | Some c \<Rightarrow>
          if \<not> IsModeSet P c (name mh) st \<or> IsListMode mh then True
          else ResolveModeConflict mh (param item) (GetModeParameter P c (name mh) st) c st)"

text \<open>
  One pass through the body of the loop of \<open>ProcessSingle\<close>: the item as the pass leaves
  it, the change pushed on \<^verbatim>\<open>LastChangeList\<close> if one is, and the state. An item is a
  change with its handler, which may be null.
\<close>

definition process_item ::
  "'w ModeParser \<Rightarrow> User \<Rightarrow> string option \<Rightarrow> User option \<Rightarrow> ModeProcessFlag set
   \<Rightarrow> 'w ModeHandler option \<times> Change \<Rightarrow> 'w server
   \<Rightarrow> ('w ModeHandler option \<times> Change) \<times> (string \<times> Change) option \<times> 'w server" where
  "process_item P user targetchannel targetuser flags0 item st =
     (case fst item of
        None \<Rightarrow> (item, None, st)
      | Some mh \<Rightarrow>
          (case (if NeedsParam mh (adding (snd item))
                 then (case IsModeParamValid user targetchannel targetuser mh (snd item) st of
                         (valid, st') \<Rightarrow>
                           if \<not> valid then (False, st')
                           else if MODE_MERGE \<in> flags0
                                   \<and> \<not> ShouldApplyMergedMode P targetchannel mh (snd item) st'
                           then (False, st')
                           else (True, st'))
                 else (True, st)) of
             (go_on, st1) \<Rightarrow>
               if \<not> go_on then (item, None, st1)
               else
                 (case TryMode P user targetuser targetchannel mh (snd item) (MODE_CHECKACCESS \<notin> flags0) st1 of
                    (ma, mcitem, st2) \<Rightarrow>
                      if ma \<noteq> MODEACTION_ALLOW then ((Some mh, mcitem), None, st2)
                      else ((Some mh, mcitem), Some (name mh, mcitem), st2))))"

text \<open>
  The loop of \<open>ProcessSingle\<close> over the items from \<^verbatim>\<open>beginindex\<close> on: the number of
  items processed, the items as the loop leaves them, \<^verbatim>\<open>LastChangeList\<close> and the state.
\<close>

fun process_loop ::
  "'w ModeParser \<Rightarrow> User \<Rightarrow> string option \<Rightarrow> User option \<Rightarrow> ModeProcessFlag set
   \<Rightarrow> ('w ModeHandler option \<times> Change) list \<Rightarrow> nat \<Rightarrow> (string \<times> Change) list \<Rightarrow> 'w server
   \<Rightarrow> nat \<times> ('w ModeHandler option \<times> Change) list \<times> (string \<times> Change) list \<times> 'w server" where
  "process_loop P user targetchannel targetuser flags0 [] modes_processed applied st =
     (modes_processed, [], applied, st)"
| "process_loop P user targetchannel targetuser flags0 (item # items) modes_processed applied st =
     (case process_item P user targetchannel targetuser flags0 item st of
        (item', pushed, st') \<Rightarrow>
          (case pushed of
             None \<Rightarrow>
               (case process_loop P user targetchannel targetuser flags0 items (modes_processed + 1) applied st' of
                  (n, items', applied', st'') \<Rightarrow> (n, item' # items', applied', st''))
           | Some change \<Rightarrow>
               if length (applied @ [change]) \<ge> MaxModes P
               then (modes_processed + 1, item' # items, applied @ [change], st')
               else
                 (case process_loop P user targetchannel targetuser flags0 items (modes_processed + 1)
                         (applied @ [change]) st' of
                    (n, items', applied', st'') \<Rightarrow> (n, item' # items', applied', st''))))"

text \<open>
  \<^verbatim>\<open>ModeParser::ProcessSingle\<close>: the number of items processed, the list of changes as
  the call leaves it, \<^verbatim>\<open>LastChangeList\<close> and the state. When a change was applied, the
  mode event with \<^verbatim>\<open>LastChangeList\<close> goes to the channel or to the local target user,
  and the \<^verbatim>\<open>OnMode\<close> hooks run.
\<close>

definition send_modeevent ::
  "string option \<Rightarrow> User option \<Rightarrow> (string \<times> Change) list \<Rightarrow> 'w server \<Rightarrow> 'w server" where
  "send_modeevent targetchannel targetuser applied st =
     (case targetchannel of
        Some c \<Rightarrow> st\<lparr> mode_events := mode_events st @ [(Some c, None, applied)] \<rparr>
      | None \<Rightarrow>
          (case targetuser of
             Some dest \<Rightarrow>
               if IS_LOCAL dest then st\<lparr> mode_events := mode_events st @ [(None, Some (nick dest), applied)] \<rparr>
               else st
           | None \<Rightarrow> st))"

definition ProcessSingle ::
  "'w ModeParser \<Rightarrow> User \<Rightarrow> string option \<Rightarrow> User option \<Rightarrow> ('w ModeHandler option \<times> Change) list
   \<Rightarrow> ModeProcessFlag set \<Rightarrow> nat \<Rightarrow> 'w server
   \<Rightarrow> nat \<times> ('w ModeHandler option \<times> Change) list \<times> (string \<times> Change) list \<times> 'w server" where
  "ProcessSingle P user targetchannel targetuser changelist flags0 beginindex st =
     (case process_loop P user targetchannel targetuser flags0 (drop beginindex changelist) 0 [] st of
        (modes_processed, items, applied, st') \<Rightarrow>
          (modes_processed, take beginindex changelist @ items, applied,
           if applied \<noteq> []
           then fold (\<lambda>hook. hook user targetuser targetchannel applied flags0) (OnMode P)
                  (send_modeevent targetchannel targetuser applied st')
           else st'))"

text \<open>
  The loop keeps the length of the list, counts the items it goes through, and leaves
  the items behind them as they are.
\<close>

lemma process_loop_length:
  "process_loop P user targetchannel targetuser flags0 items m applied st = (n, items', applied', st')
   \<Longrightarrow> length items' = length items"
  by (induction items arbitrary: m applied st n items' applied' st')
     (auto split: prod.splits option.splits if_splits)

lemma process_loop_count:
  "process_loop P user targetchannel targetuser flags0 items m applied st = (n, items', applied', st')
   \<Longrightarrow> m \<le> n \<and> n \<le> m + length items \<and> (items \<noteq> [] \<longrightarrow> m < n)"
proof (induction items arbitrary: m applied st n items' applied' st')
  case Nil
  then show ?case by simp
next
  case (Cons item items)
  then show ?case by (fastforce split: prod.splits option.splits if_splits)
qed

lemma process_loop_cap:
  "process_loop P user targetchannel targetuser flags0 items m applied st = (n, items', applied', st')
   \<Longrightarrow> length applied < max 1 (MaxModes P)
   \<Longrightarrow> length applied' \<le> max 1 (MaxModes P)"
proof (induction items arbitrary: m applied st n items' applied' st')
  case Nil
  then show ?case by simp
next
  case (Cons item items)
  obtain item1 pushed st1 where pi: "process_item P user targetchannel targetuser flags0 item st = (item1, pushed, st1)"
    by (cases "process_item P user targetchannel targetuser flags0 item st")
  show ?case
  proof (cases pushed)
    case None
    with Cons.prems pi obtain items1 where
      "process_loop P user targetchannel targetuser flags0 items (m + 1) applied st1 = (n, items1, applied', st')"
      by (auto split: prod.splits)
    from Cons.IH[OF this Cons.prems(2)] show ?thesis .
  next
    case (Some change)
    show ?thesis
    proof (cases "length (applied @ [change]) \<ge> MaxModes P")
      case True
      with Cons.prems pi Some have "applied' = applied @ [change]" by simp
      with Cons.prems(2) show ?thesis by simp
    next
      case False
      with Cons.prems pi Some obtain items1 where
        "process_loop P user targetchannel targetuser flags0 items (m + 1) (applied @ [change]) st1
           = (n, items1, applied', st')"
        by (auto split: prod.splits)
      moreover from False have "length (applied @ [change]) < max 1 (MaxModes P)" by simp
      ultimately show ?thesis by (rule Cons.IH)
    qed
  qed
qed

lemma process_loop_stops_at_cap:
  "process_loop P user targetchannel targetuser flags0 items m applied st = (n, items', applied', st')
   \<Longrightarrow> n < m + length items \<Longrightarrow> MaxModes P \<le> length applied'"
proof (induction items arbitrary: m applied st n items' applied' st')
  case Nil
  then show ?case by simp
next
  case (Cons item items)
  obtain item1 pushed st1 where pi: "process_item P user targetchannel targetuser flags0 item st = (item1, pushed, st1)"
    by (cases "process_item P user targetchannel targetuser flags0 item st")
  show ?case
  proof (cases pushed)
    case None
    with Cons.prems pi obtain items1 where
      "process_loop P user targetchannel targetuser flags0 items (m + 1) applied st1 = (n, items1, applied', st')"
      by (auto split: prod.splits)
    moreover from Cons.prems(2) have "n < (m + 1) + length items" by simp
    ultimately show ?thesis by (rule Cons.IH)
  next
    case (Some change)
    show ?thesis
    proof (cases "length (applied @ [change]) \<ge> MaxModes P")
      case True
      with Cons.prems pi Some have "applied' = applied @ [change]" by simp
      with True show ?thesis by simp
    next
      case False
      with Cons.prems pi Some obtain items1 where
        "process_loop P user targetchannel targetuser flags0 items (m + 1) (applied @ [change]) st1
           = (n, items1, applied', st')"
        by (auto split: prod.splits)
      moreover from Cons.prems(2) have "n < (m + 1) + length items" by simp
      ultimately show ?thesis by (rule Cons.IH)
    qed
  qed
qed

text \<open>
  The items behind those that the loop went through are not looked at: the loop on the
  list cut behind them gives the same, and they are as they were.
\<close>

lemma process_loop_rest:
  "process_loop P user targetchannel targetuser flags0 items m applied st = (n, items', applied', st')
   \<Longrightarrow> process_loop P user targetchannel targetuser flags0 (take (n - m) items) m applied st
         = (n, take (n - m) items', applied', st')
       \<and> drop (n - m) items' = drop (n - m) items"
proof (induction items arbitrary: m applied st n items' applied' st')
  case Nil
  then show ?case by simp
next
  case (Cons item items)
  obtain item1 pushed st1 where pi: "process_item P user targetchannel targetuser flags0 item st = (item1, pushed, st1)"
    by (cases "process_item P user targetchannel targetuser flags0 item st")
  from process_loop_count[OF Cons.prems] have mn: "m < n" by simp
  then have nm: "n - m = Suc (n - (m + 1))" by simp
  show ?case
  proof (cases pushed)
    case None
    with Cons.prems pi obtain items1 where
      r: "process_loop P user targetchannel targetuser flags0 items (m + 1) applied st1 = (n, items1, applied', st')"
      and i: "items' = item1 # items1"
      by (auto split: prod.splits)
    from Cons.IH[OF r] pi None i show ?thesis unfolding nm by simp
  next
    case (Some change)
    show ?thesis
    proof (cases "length (applied @ [change]) \<ge> MaxModes P")
      case True
      with Cons.prems pi Some have "n = m + 1" "items' = item1 # items" "applied' = applied @ [change]" "st' = st1"
        by simp_all
      with pi Some True show ?thesis by simp
    next
      case False
      with Cons.prems pi Some obtain items1 where
        r: "process_loop P user targetchannel targetuser flags0 items (m + 1) (applied @ [change]) st1
           = (n, items1, applied', st')"
        and i: "items' = item1 # items1"
        by (auto split: prod.splits)
      from Cons.IH[OF r] pi Some False i show ?thesis unfolding nm by simp
    qed
  qed
qed

lemma ProcessSingle_length:
  "ProcessSingle P user targetchannel targetuser changelist flags0 beginindex st = (n, changelist', applied, st')
   \<Longrightarrow> length changelist' = length changelist"
  by (auto simp: ProcessSingle_def split: prod.splits dest!: process_loop_length)

lemma ProcessSingle_progress:
  "ProcessSingle P user targetchannel targetuser changelist flags0 beginindex st = (n, changelist', applied, st')
   \<Longrightarrow> beginindex < length changelist \<Longrightarrow> 0 < n"
  by (auto simp: ProcessSingle_def split: prod.splits dest!: process_loop_count)

text \<open>
  \<^verbatim>\<open>ModeParser::Process\<close> calls \<open>ProcessSingle\<close> until the whole list is processed, and
  at least once: the list of changes as the calls leave it, and the state.
\<close>

function Process_loop ::
  "'w ModeParser \<Rightarrow> User \<Rightarrow> string option \<Rightarrow> User option \<Rightarrow> ('w ModeHandler option \<times> Change) list
   \<Rightarrow> ModeProcessFlag set \<Rightarrow> nat \<Rightarrow> 'w server
   \<Rightarrow> ('w ModeHandler option \<times> Change) list \<times> 'w server" where
  "Process_loop P user targetchannel targetuser changelist flags0 processed st =
     (case ProcessSingle P user targetchannel targetuser changelist flags0 processed st of
        (n, changelist', applied, st') \<Rightarrow>
          if processed + n < length changelist'
          then Process_loop P user targetchannel targetuser changelist' flags0 (processed + n) st'
          else (changelist', st'))"
  by pat_completeness auto
termination
proof (relation "measure (\<lambda>(P, user, targetchannel, targetuser, changelist, flags0, processed, st).
                            length changelist - processed)", goal_cases)
  case 1
  show ?case by simp
next
  case (2 P user targetchannel targetuser changelist flags0 processed st n y changelist' z applied st')
  then have ps: "ProcessSingle P user targetchannel targetuser changelist flags0 processed st
                   = (n, changelist', applied, st')" by simp
  from ProcessSingle_length[OF ps] 2 have "processed < length changelist" by simp
  from ProcessSingle_progress[OF ps this] ProcessSingle_length[OF ps] 2 show ?case by simp
qed

declare Process_loop.simps [simp del]

definition Process ::
  "'w ModeParser \<Rightarrow> User \<Rightarrow> string option \<Rightarrow> User option \<Rightarrow> ('w ModeHandler option \<times> Change) list
   \<Rightarrow> ModeProcessFlag set \<Rightarrow> 'w server
   \<Rightarrow> ('w ModeHandler option \<times> Change) list \<times> 'w server" where
  "Process P user targetchannel targetuser changelist flags0 st =
     Process_loop P user targetchannel targetuser changelist flags0 0 st"

text \<open>
  The changes of a list are allowable from a state when the body of the loop applies
  each of them in its turn.
\<close>

fun allowable ::
  "'w ModeParser \<Rightarrow> User \<Rightarrow> string option \<Rightarrow> User option \<Rightarrow> ModeProcessFlag set
   \<Rightarrow> ('w ModeHandler option \<times> Change) list \<Rightarrow> 'w server \<Rightarrow> bool" where
  "allowable P user targetchannel targetuser flags0 [] st = True"
| "allowable P user targetchannel targetuser flags0 (item # items) st =
     (case process_item P user targetchannel targetuser flags0 item st of
        (item', pushed, st') \<Rightarrow>
          pushed \<noteq> None \<and> allowable P user targetchannel targetuser flags0 items st')"

lemma process_loop_allowable:
  "process_loop P user targetchannel targetuser flags0 items m applied st = (n, items', applied', st')
   \<Longrightarrow> allowable P user targetchannel targetuser flags0 items st
   \<Longrightarrow> length applied < max 1 (MaxModes P)
   \<Longrightarrow> n - m = min (length items) (max 1 (MaxModes P) - length applied)
       \<and> length applied' = length applied + (n - m)"
proof (induction items arbitrary: m applied st n items' applied' st')
  case Nil
  then show ?case by simp
next
  case (Cons item items)
  obtain item1 pushed st1 where pi: "process_item P user targetchannel targetuser flags0 item st = (item1, pushed, st1)"
    by (cases "process_item P user targetchannel targetuser flags0 item st")
  with Cons.prems(2) obtain change where Some: "pushed = Some change"
    and a: "allowable P user targetchannel targetuser flags0 items st1"
    by auto
  from process_loop_count[OF Cons.prems(1)] have mn: "m < n" by simp
  show ?case
  proof (cases "length (applied @ [change]) \<ge> MaxModes P")
    case True
    with Cons.prems pi Some have "n = m + 1" "applied' = applied @ [change]" by simp_all
    with True Cons.prems(3) show ?thesis by auto
  next
    case False
    with Cons.prems pi Some obtain items1 where
      r: "process_loop P user targetchannel targetuser flags0 items (m + 1) (applied @ [change]) st1
           = (n, items1, applied', st')"
      by (auto split: prod.splits)
    from False have l: "length (applied @ [change]) < max 1 (MaxModes P)" by simp
    from Cons.IH[OF r a l] process_loop_count[OF r] mn False show ?thesis by auto
  qed
qed

text \<open>
  C2 (as amended). \<open>ProcessSingle\<close> applies at most \<^verbatim>\<open>MaxModes\<close> changes, and at most
  one when \<^verbatim>\<open>MaxModes\<close> is 0: the test against the cap comes after a change is pushed.
  It returns the number of items it went through; the items behind them are as they
  were and were not looked at (the call on the list cut behind them gives the same).
  Items are left over only when the cap is reached, and then \<open>Process\<close> goes on with a
  call of \<open>ProcessSingle\<close> that begins at the first of them. When the changes from
  \<^verbatim>\<open>beginindex\<close> on are allowable, the call applies as many as the cap lets it, and
  goes through as many items.
\<close>

theorem ProcessSingle_cap:
  assumes ps: "ProcessSingle P user targetchannel targetuser changelist flags0 beginindex st
                 = (n, changelist', applied, st')"
  shows "length applied \<le> max 1 (MaxModes P)
         \<and> n \<le> length changelist - beginindex
         \<and> drop (beginindex + n) changelist' = drop (beginindex + n) changelist
         \<and> ProcessSingle P user targetchannel targetuser (take (beginindex + n) changelist) flags0 beginindex st
             = (n, take (beginindex + n) changelist', applied, st')
         \<and> (beginindex + n < length changelist \<longrightarrow>
               MaxModes P \<le> length applied
               \<and> Process_loop P user targetchannel targetuser changelist flags0 beginindex st
                   = Process_loop P user targetchannel targetuser changelist' flags0 (beginindex + n) st')
         \<and> (allowable P user targetchannel targetuser flags0 (drop beginindex changelist) st
               \<longrightarrow> n = min (length changelist - beginindex) (max 1 (MaxModes P)) \<and> length applied = n)"
proof -
  let ?items = "drop beginindex changelist"
  obtain items' st1 where
    pl: "process_loop P user targetchannel targetuser flags0 ?items 0 [] st = (n, items', applied, st1)"
    and cl': "changelist' = take beginindex changelist @ items'"
    and st': "st' = (if applied \<noteq> []
                     then fold (\<lambda>hook. hook user targetuser targetchannel applied flags0) (OnMode P)
                            (send_modeevent targetchannel targetuser applied st1)
                     else st1)"
    using ps by (auto simp: ProcessSingle_def split: prod.splits)
  have c1: "length applied \<le> max 1 (MaxModes P)"
    using process_loop_cap[OF pl] by simp
  have c2: "n \<le> length changelist - beginindex"
    using process_loop_count[OF pl] by simp
  from process_loop_rest[OF pl]
  have rest: "process_loop P user targetchannel targetuser flags0 (take n ?items) 0 [] st
                = (n, take n items', applied, st1)"
    and unch: "drop n items' = drop n ?items"
    by simp_all
  have li: "length items' = length changelist - beginindex"
    using process_loop_length[OF pl] by simp
  have c3: "drop (beginindex + n) changelist' = drop (beginindex + n) changelist"
  proof (cases "beginindex \<le> length changelist")
    case True
    then have "drop (beginindex + n) changelist' = drop n items'"
      by (simp add: cl' add.commute)
    also have "\<dots> = drop n ?items" by (rule unch)
    also have "\<dots> = drop (beginindex + n) changelist" by (simp add: add.commute)
    finally show ?thesis .
  next
    case False
    with li show ?thesis by (simp add: cl')
  qed
  have c4: "ProcessSingle P user targetchannel targetuser (take (beginindex + n) changelist) flags0 beginindex st
             = (n, take (beginindex + n) changelist', applied, st')"
  proof -
    have d: "drop beginindex (take (beginindex + n) changelist) = take n ?items"
      by (simp add: drop_take)
    have t: "take beginindex (take (beginindex + n) changelist) @ take n items'
               = take (beginindex + n) changelist'"
    proof (cases "beginindex \<le> length changelist")
      case True
      then show ?thesis by (simp add: cl' min_def)
    next
      case False
      with li c2 show ?thesis by (simp add: cl')
    qed
    show ?thesis
      unfolding ProcessSingle_def d rest using t st' by simp
  qed
  have c5: "beginindex + n < length changelist \<longrightarrow>
               MaxModes P \<le> length applied
               \<and> Process_loop P user targetchannel targetuser changelist flags0 beginindex st
                   = Process_loop P user targetchannel targetuser changelist' flags0 (beginindex + n) st'"
  proof
    assume lt: "beginindex + n < length changelist"
    then have "n < 0 + length ?items" by simp
    from process_loop_stops_at_cap[OF pl this] have "MaxModes P \<le> length applied" .
    moreover from lt ProcessSingle_length[OF ps] ps
    have "Process_loop P user targetchannel targetuser changelist flags0 beginindex st
            = Process_loop P user targetchannel targetuser changelist' flags0 (beginindex + n) st'"
      by (subst Process_loop.simps) simp
    ultimately show "MaxModes P \<le> length applied
               \<and> Process_loop P user targetchannel targetuser changelist flags0 beginindex st
                   = Process_loop P user targetchannel targetuser changelist' flags0 (beginindex + n) st'"
      by simp
  qed
  have c6: "allowable P user targetchannel targetuser flags0 ?items st
               \<longrightarrow> n = min (length changelist - beginindex) (max 1 (MaxModes P)) \<and> length applied = n"
  proof
    assume "allowable P user targetchannel targetuser flags0 ?items st"
    from process_loop_allowable[OF pl this]
    show "n = min (length changelist - beginindex) (max 1 (MaxModes P)) \<and> length applied = n" by simp
  qed
  from c1 c2 c3 c4 c5 c6 show ?thesis by blast
qed

subsection \<open>Simple channel modes\<close>

text \<open>
  \<^verbatim>\<open>SimpleChannelMode::OnModeChange\<close>, on a state that holds the modes set on the
  channels, each by the name of the channel and of the handler.

  Modelled from the spec: \<^verbatim>\<open>Channel::IsModeSet\<close> and \<^verbatim>\<open>Channel::SetMode\<close>, the active
  channel-mode set of a channel. The handler of a channel mode is called with a channel.
\<close>

definition SimpleChannelMode_OnModeChange ::
  "string \<Rightarrow> User \<Rightarrow> User option \<Rightarrow> string option \<Rightarrow> Change \<Rightarrow> (string \<times> string) set server
   \<Rightarrow> ModeAction \<times> Change \<times> (string \<times> string) set server" where
  "SimpleChannelMode_OnModeChange modename source dest channel change st =
     (case channel of
        None \<Rightarrow> (MODEACTION_DENY, change, st)
      | Some c \<Rightarrow>
          if ((c, modename) \<in> world st) = adding change then (MODEACTION_DENY, change, st)
          else (MODEACTION_ALLOW, change,
                st\<lparr> world := (if adding change then insert (c, modename) (world st)
                                else world st - {(c, modename)}) \<rparr>))"

text \<open>\<^verbatim>\<open>operator<\<close> of two strings, the default \<^verbatim>\<open>ResolveModeConflict\<close>.\<close>

fun string_less :: "string \<Rightarrow> string \<Rightarrow> bool" where
  "string_less [] [] = False"
| "string_less [] (b # bs) = True"
| "string_less (a # as) [] = False"
| "string_less (a # as) (b # bs) = ((of_char a :: nat) < of_char b \<or> (a = b \<and> string_less as bs))"

definition SimpleChannelMode :: "string \<Rightarrow> char \<Rightarrow> (string \<times> string) set ModeHandler" where
  "SimpleChannelMode modename modeletter =
     \<lparr> name = modename, GetModeChar = modeletter, parameters_taken = PARAM_NONE, syntax_hint = [],
       ranktoset = 0, ranktounset = 0, NeedsOper = False, IsListMode = False,
       AccessCheck = (\<lambda>source channel change st. (MOD_RES_PASSTHRU, change, st)),
       OnModeChange = SimpleChannelMode_OnModeChange modename,
       ResolveModeConflict = (\<lambda>theirs ours channel st. string_less theirs ours) \<rparr>"

text \<open>
  A mode parser without hooks and watchers, and the list of changes that sets ten
  simple modes on a channel where none is set.
\<close>

definition plain_parser :: "nat \<Rightarrow> (string \<times> string) set ModeParser" where
  "plain_parser maxmodes =
     \<lparr> OnRawMode = [], OnMode = [], modewatchermap = [], GetPrefixModes = [],
       MODE_PARAM_MAX = 250, MaxModes = maxmodes,
       GetPrefixValue = (\<lambda>c user st. 0),
       IsModeSet = (\<lambda>c modename st. (c, modename) \<in> world st),
       GetModeParameter = (\<lambda>c modename st. []) \<rparr>"

definition set_modes :: "string \<Rightarrow> ((string \<times> string) set ModeHandler option \<times> Change) list" where
  "set_modes letters = map (\<lambda>ch. (Some (SimpleChannelMode [ch] ch), \<lparr> adding = True, param = [] \<rparr>)) letters"

definition applied_modes :: "string \<Rightarrow> (string \<times> Change) list" where
  "applied_modes letters = map (\<lambda>ch. ([ch], \<lparr> adding = True, param = [] \<rparr>)) letters"

definition some_user :: User where
  "some_user = \<lparr> nick = ''nick'', IS_LOCAL = True, oper = None, HasModePermission = (\<lambda>modename. False) \<rparr>"

definition no_modes :: "(string \<times> string) set server" where
  "no_modes = \<lparr> numerics = [], mode_events = [], world = {} \<rparr>"

text \<open>The state after the first six modes are set, and after all ten.\<close>

definition six_set :: "(string \<times> string) set server" where
  "six_set =
     \<lparr> numerics = [], mode_events = [(Some ''#c'', None, applied_modes ''abcdef'')],
       world = {(''#c'', [ch]) | ch. ch \<in> set ''abcdef''} \<rparr>"

definition ten_set :: "(string \<times> string) set server" where
  "ten_set =
     \<lparr> numerics = [],
       mode_events = [(Some ''#c'', None, applied_modes ''abcdef''), (Some ''#c'', None, applied_modes ''ghij'')],
       world = {(''#c'', [ch]) | ch. ch \<in> set ''abcdefghij''} \<rparr>"

lemmas mode_eval =
  ProcessSingle_def process_item_def TryMode_def cropped_def access_check_def NeedsParam_def
  SimpleChannelMode_def SimpleChannelMode_OnModeChange_def plain_parser_def set_modes_def
  applied_modes_def some_user_def no_modes_def send_modeevent_def six_set_def ten_set_def Let_def

lemma ten_modes_cap_6:
  "ProcessSingle (plain_parser 6) some_user (Some ''#c'') None (set_modes ''abcdefghij'') {} 0 no_modes
   = (6, set_modes ''abcdefghij'', applied_modes ''abcdef'', six_set)"
  by (auto simp add: mode_eval)

lemma four_modes_left:
  "ProcessSingle (plain_parser 6) some_user (Some ''#c'') None (set_modes ''abcdefghij'') {} 6 six_set
   = (4, set_modes ''abcdefghij'', applied_modes ''ghij'', ten_set)"
  by (auto simp add: mode_eval)

lemma ten_modes_allowable:
  "allowable (plain_parser 6) some_user (Some ''#c'') None {} (set_modes ''abcdefghij'') no_modes"
  by (simp add: mode_eval)

text \<open>\<open>Process\<close> on the ten changes sends two mode events, of six and of four changes.\<close>

lemma ten_modes_Process:
  "Process (plain_parser 6) some_user (Some ''#c'') None (set_modes ''abcdefghij'') {} no_modes
   = (set_modes ''abcdefghij'', ten_set)"
proof -
  have l: "length (set_modes ''abcdefghij'') = 10" by (simp add: set_modes_def)
  have "Process_loop (plain_parser 6) some_user (Some ''#c'') None (set_modes ''abcdefghij'') {} 0 no_modes
        = Process_loop (plain_parser 6) some_user (Some ''#c'') None (set_modes ''abcdefghij'') {} 6 six_set"
    by (subst Process_loop.simps) (simp add: ten_modes_cap_6 l)
  also have "\<dots> = (set_modes ''abcdefghij'', ten_set)"
    by (subst Process_loop.simps) (simp add: four_modes_left l)
  finally show ?thesis unfolding Process_def .
qed

theorem ProcessSingle_cap_witness:
  "ProcessSingle (plain_parser 6) some_user (Some ''#c'') None (set_modes ''abcdefghij'') {} 0 no_modes
     = (6, set_modes ''abcdefghij'', applied_modes ''abcdef'', six_set)
   \<and> length (applied_modes ''abcdef'') \<le> max 1 (MaxModes (plain_parser 6))
   \<and> ProcessSingle (plain_parser 6) some_user (Some ''#c'') None (set_modes ''abcdef'') {} 0 no_modes
     = (6, set_modes ''abcdef'', applied_modes ''abcdef'', six_set)
   \<and> 0 + 6 < length (set_modes ''abcdefghij'')
   \<and> MaxModes (plain_parser 6) \<le> length (applied_modes ''abcdef'')
   \<and> Process_loop (plain_parser 6) some_user (Some ''#c'') None (set_modes ''abcdefghij'') {} 0 no_modes
     = Process_loop (plain_parser 6) some_user (Some ''#c'') None (set_modes ''abcdefghij'') {} 6 six_set
   \<and> allowable (plain_parser 6) some_user (Some ''#c'') None {} (set_modes ''abcdefghij'') no_modes
   \<and> (6::nat) = min (length (set_modes ''abcdefghij'') - 0) (max 1 (MaxModes (plain_parser 6)))
   \<and> length (applied_modes ''abcdef'') = 6"
proof -
  have l: "0 + 6 < length (set_modes ''abcdefghij'')" by (simp add: set_modes_def)
  have t: "take (0 + 6) (set_modes ''abcdefghij'') = set_modes ''abcdef''" by (simp add: set_modes_def)
  have a: "allowable (plain_parser 6) some_user (Some ''#c'') None {} (drop 0 (set_modes ''abcdefghij'')) no_modes"
    using ten_modes_allowable by simp
  from ProcessSingle_cap[OF ten_modes_cap_6] l a ten_modes_cap_6 ten_modes_allowable
  show ?thesis unfolding t by simp
qed

text \<open>
  With \<^verbatim>\<open>MaxModes\<close> 0 one change is applied all the same: more than the cap.
\<close>

theorem ProcessSingle_maxmodes_0_counterexample:
  "MaxModes (plain_parser 0) = 0
   \<and> ProcessSingle (plain_parser 0) some_user (Some ''#c'') None (set_modes ''ab'') {} 0 no_modes
     = (1, set_modes ''ab'', applied_modes ''a'',
        \<lparr> numerics = [], mode_events = [(Some ''#c'', None, applied_modes ''a'')],
          world = {(''#c'', ''a'')} \<rparr>)"
  by (auto simp add: mode_eval)

subsection \<open>The rank needed for a change\<close>











subsection \<open>The length of a parameter\<close>

lemma cropped_idem: "cropped P (cropped P mcitem) = cropped P mcitem"
  by (simp add: cropped_def)

lemma cropped_adding: "adding (cropped P mcitem) = adding mcitem"
  by (simp add: cropped_def)

text \<open>
  C10 (as amended). \<open>TryMode\<close> crops the parameter of an adding change to
  \<^verbatim>\<open>MODE_PARAM_MAX\<close> characters before anything else: the call on a change is the call
  on the cropped change, so no hook, access check, watcher or handler is given more
  than the first \<^verbatim>\<open>MODE_PARAM_MAX\<close> characters, and a parameter that was longer has
  exactly that length. A removing change is not cropped: with no hook and no watcher
  in the way, the handler is called with the change as it came.
\<close>

theorem TryMode_crops:
  "TryMode P user targetuser chan mh mcitem SkipACL st
     = TryMode P user targetuser chan mh (cropped P mcitem) SkipACL st
   \<and> (adding mcitem \<longrightarrow> param (cropped P mcitem) = take (MODE_PARAM_MAX P) (param mcitem))
   \<and> (adding mcitem \<and> MODE_PARAM_MAX P < length (param mcitem)
        \<longrightarrow> length (param (cropped P mcitem)) = MODE_PARAM_MAX P)
   \<and> (\<not> adding mcitem \<longrightarrow> cropped P mcitem = mcitem)
   \<and> (\<not> adding mcitem \<and> OnRawMode P = [] \<and> modewatchermap P = [] \<and> \<not> NeedsOper mh \<and> SkipACL \<longrightarrow>
        TryMode P user targetuser chan mh mcitem SkipACL st
          = (case OnModeChange mh user targetuser chan mcitem st of
               (ma, mcitem4, st4) \<Rightarrow>
                 if NeedsParam mh False \<and> param mcitem4 = [] then (MODEACTION_DENY, mcitem4, st4)
                 else if ma \<noteq> MODEACTION_ALLOW then (ma, mcitem4, st4)
                 else (MODEACTION_ALLOW, mcitem4, st4)))"
proof (intro conjI impI)
  show "TryMode P user targetuser chan mh mcitem SkipACL st
          = TryMode P user targetuser chan mh (cropped P mcitem) SkipACL st"
    unfolding TryMode_def cropped_idem cropped_adding ..
  show "param (cropped P mcitem) = take (MODE_PARAM_MAX P) (param mcitem)" if "adding mcitem"
    using that by (simp add: cropped_def)
  show "length (param (cropped P mcitem)) = MODE_PARAM_MAX P"
    if "adding mcitem \<and> MODE_PARAM_MAX P < length (param mcitem)"
    using that by (simp add: cropped_def)
  show "cropped P mcitem = mcitem" if "\<not> adding mcitem"
    using that by (simp add: cropped_def)
  show "TryMode P user targetuser chan mh mcitem SkipACL st
          = (case OnModeChange mh user targetuser chan mcitem st of
               (ma, mcitem4, st4) \<Rightarrow>
                 if NeedsParam mh False \<and> param mcitem4 = [] then (MODEACTION_DENY, mcitem4, st4)
                 else if ma \<noteq> MODEACTION_ALLOW then (ma, mcitem4, st4)
                 else (MODEACTION_ALLOW, mcitem4, st4))"
    if "\<not> adding mcitem \<and> OnRawMode P = [] \<and> modewatchermap P = [] \<and> \<not> NeedsOper mh \<and> SkipACL"
  proof -
    obtain ma mcitem4 st4 where h: "OnModeChange mh user targetuser chan mcitem st = (ma, mcitem4, st4)"
      by (cases "OnModeChange mh user targetuser chan mcitem st")
    from that have ac: "access_check P user chan mh mcitem SkipACL MOD_RES_PASSTHRU st = (True, mcitem, st)"
      by (cases chan) (simp_all add: access_check_def)
    from that have c: "cropped P mcitem = mcitem" by (simp add: cropped_def)
    from that h ac show ?thesis
      unfolding TryMode_def Let_def c by simp
  qed
qed

text \<open>
  A list mode of masks, such as the ban list of a channel: its entries are in the
  state, each with the name of its channel.

  Modelled from the spec: a list mode appends or removes an entry, and mask cleaning
  is used by \<open>+b\<close> and similar. The handler cleans the mask of an adding change with
  \<open>CleanMask\<close>, which takes the parameter of the change by reference.
\<close>

definition mask_list_OnModeChange ::
  "User \<Rightarrow> User option \<Rightarrow> string option \<Rightarrow> Change \<Rightarrow> (string \<times> string) set server
   \<Rightarrow> ModeAction \<times> Change \<times> (string \<times> string) set server" where
  "mask_list_OnModeChange source dest channel change st =
     (case channel of
        None \<Rightarrow> (MODEACTION_DENY, change, st)
      | Some c \<Rightarrow>
          if adding change
          then (let cleaned = change\<lparr> param := CleanMask (param change) \<rparr>
                in if (c, param cleaned) \<in> world st then (MODEACTION_DENY, cleaned, st)
                   else (MODEACTION_ALLOW, cleaned, st\<lparr> world := insert (c, param cleaned) (world st) \<rparr>))
          else if (c, param change) \<in> world st
          then (MODEACTION_ALLOW, change, st\<lparr> world := world st - {(c, param change)} \<rparr>)
          else (MODEACTION_DENY, change, st))"

definition ban :: "(string \<times> string) set ModeHandler" where
  "ban =
     \<lparr> name = ''ban'', GetModeChar = CHR ''b'', parameters_taken = PARAM_ALWAYS, syntax_hint = ''<mask>'',
       ranktoset = 20000, ranktounset = 20000, NeedsOper = False, IsListMode = True,
       AccessCheck = (\<lambda>source channel change st. (MOD_RES_PASSTHRU, change, st)),
       OnModeChange = mask_list_OnModeChange,
       ResolveModeConflict = (\<lambda>theirs ours channel st. string_less theirs ours) \<rparr>"

lemma str_find_hd: "str_find s sub = Some i \<Longrightarrow> sub \<noteq> [] \<Longrightarrow> hd sub \<in> set s"
proof (induction s arbitrary: i)
  case Nil
  then show ?case by simp
next
  case (Cons x xs)
  show ?case
  proof (cases "starts_with (x # xs) sub")
    case True
    with Cons.prems(2) show ?thesis by (cases sub) auto
  next
    case False
    with Cons.prems obtain j where "str_find xs sub = Some j" by auto
    from Cons.IH[OF this Cons.prems(2)] show ?thesis by simp
  qed
qed

lemma CleanMask_nick:
  assumes "CHR ''!'' \<notin> set m" "CHR ''@'' \<notin> set m" "CHR ''.'' \<notin> set m" "CHR '':'' \<notin> set m"
  shows "CleanMask m = m @ ''!*@*''"
proof -
  have "str_find m ''::'' = None"
  proof (cases "str_find m ''::''")
    case (Some i)
    from str_find_hd[OF this] assms(4) show ?thesis by simp
  qed simp
  moreover have "\<And>i. i < length m \<Longrightarrow> m ! i \<noteq> CHR '':''"
    using assms(4) nth_mem by metis
  then have "char_at m 1 \<noteq> CHR '':''" "char_at m 0 \<noteq> CHR '':''"
    by (simp_all add: char_at_def)
  ultimately show ?thesis using assms
    by (simp add: CleanMask_def Let_def find_first_of_None[symmetric])
qed

text \<open>
  A nick of 250 characters is not cropped, and the ban that is set and sent out has a
  mask of 254 characters.
\<close>

theorem TryMode_longer_param_counterexample:
  "MODE_PARAM_MAX (plain_parser 20) = 250
   \<and> TryMode (plain_parser 20) some_user None (Some ''#c'') ban
        \<lparr> adding = True, param = replicate 250 (CHR ''a'') \<rparr> True no_modes
     = (MODEACTION_ALLOW, \<lparr> adding = True, param = replicate 250 (CHR ''a'') @ ''!*@*'' \<rparr>,
        \<lparr> numerics = [], mode_events = [], world = {(''#c'', replicate 250 (CHR ''a'') @ ''!*@*'')} \<rparr>)
   \<and> length (replicate 250 (CHR ''a'') @ ''!*@*'') = 254"
proof -
  have "CleanMask (replicate 250 (CHR ''a'')) = replicate 250 (CHR ''a'') @ ''!*@*''"
    by (rule CleanMask_nick) simp_all
  then show ?thesis
    by (simp add: TryMode_def cropped_def access_check_def NeedsParam_def Let_def ban_def
        mask_list_OnModeChange_def plain_parser_def some_user_def no_modes_def)
qed

theorem TryMode_crops_witness:
  "TryMode (plain_parser 20) some_user None (Some ''#c'') ban
     \<lparr> adding = True, param = replicate 300 (CHR ''a'') \<rparr> True no_modes
     = TryMode (plain_parser 20) some_user None (Some ''#c'') ban
         \<lparr> adding = True, param = replicate 250 (CHR ''a'') \<rparr> True no_modes
   \<and> length (param (cropped (plain_parser 20) \<lparr> adding = True, param = replicate 300 (CHR ''a'') \<rparr>)) = 250
   \<and> cropped (plain_parser 20) \<lparr> adding = False, param = replicate 300 (CHR ''a'') \<rparr>
     = \<lparr> adding = False, param = replicate 300 (CHR ''a'') \<rparr>
   \<and> TryMode (plain_parser 20) some_user None (Some ''#c'') ban
        \<lparr> adding = False, param = replicate 300 (CHR ''a'') \<rparr> True
        (no_modes\<lparr> world := {(''#c'', replicate 300 (CHR ''a''))} \<rparr>)
     = (MODEACTION_ALLOW, \<lparr> adding = False, param = replicate 300 (CHR ''a'') \<rparr>, no_modes)"
proof -
  let ?P = "plain_parser 20"
  let ?long = "\<lparr> adding = True, param = replicate 300 (CHR ''a'') \<rparr>"
  let ?gone = "\<lparr> adding = False, param = replicate 300 (CHR ''a'') \<rparr>"
  let ?st = "no_modes\<lparr> world := {(''#c'', replicate 300 (CHR ''a''))} \<rparr>"
  have m: "MODE_PARAM_MAX ?P = 250" "OnRawMode ?P = []" "modewatchermap ?P = []" "\<not> NeedsOper ban"
    by (simp_all add: plain_parser_def ban_def)
  have c: "cropped ?P ?long = \<lparr> adding = True, param = replicate 250 (CHR ''a'') \<rparr>"
    by (simp add: cropped_def m)
  note add = TryMode_crops[of ?P some_user None "Some ''#c''" ban ?long True no_modes]
  note del = TryMode_crops[of ?P some_user None "Some ''#c''" ban ?gone True ?st]
  from add[THEN conjunct1]
  have r1: "TryMode ?P some_user None (Some ''#c'') ban ?long True no_modes
     = TryMode ?P some_user None (Some ''#c'') ban \<lparr> adding = True, param = replicate 250 (CHR ''a'') \<rparr> True no_modes"
    unfolding c .
  from add[THEN conjunct2, THEN conjunct2, THEN conjunct1] m
  have r2: "length (param (cropped ?P ?long)) = 250" by simp
  from del[THEN conjunct2, THEN conjunct2, THEN conjunct2, THEN conjunct1]
  have r3: "cropped ?P ?gone = ?gone" by simp
  from del[THEN conjunct2, THEN conjunct2, THEN conjunct2, THEN conjunct2] m
  have "TryMode ?P some_user None (Some ''#c'') ban ?gone True ?st
          = (case OnModeChange ban some_user None (Some ''#c'') ?gone ?st of
               (ma, mcitem4, st4) \<Rightarrow>
                 if NeedsParam ban False \<and> param mcitem4 = [] then (MODEACTION_DENY, mcitem4, st4)
                 else if ma \<noteq> MODEACTION_ALLOW then (ma, mcitem4, st4)
                 else (MODEACTION_ALLOW, mcitem4, st4))"
    by simp
  then have r4: "TryMode ?P some_user None (Some ''#c'') ban ?gone True ?st = (MODEACTION_ALLOW, ?gone, no_modes)"
    by (simp add: ban_def mask_list_OnModeChange_def no_modes_def NeedsParam_def)
  from r1 r2 r3 r4 show ?thesis by (simp only: simp_thms)
qed

subsection \<open>Parameter modes (ParamModeBase::OnModeChange)\<close>

text \<open>
  Modelled from the spec: a channel has its active channel-mode set with per-mode
  parameters. The state holds the modes set on the channels (\<^verbatim>\<open>Channel::IsModeSet\<close>,
  \<^verbatim>\<open>Channel::SetMode\<close>) and the value that a parameter mode stores for a channel.
  \<^verbatim>\<open>GetParameter\<close> serialises the stored value, \<^verbatim>\<open>OnUnsetInternal\<close> removes it, and
  \<^verbatim>\<open>Channel::GetModeParameter\<close> is the serialised value when the mode is set and the
  empty string when it is not. \<^verbatim>\<open>OnSet\<close> is the handler's own: it accepts the
  parameter or not, may rewrite it, and stores its value.
\<close>

record 'v channel_modes =
  chanmodes :: "(string \<times> string) set"
  stored :: "string \<times> string \<Rightarrow> 'v option"

record 'v ParamModeBase =
  pm_name :: string
  OnSet :: "User \<Rightarrow> string \<Rightarrow> string \<Rightarrow> 'v channel_modes server
            \<Rightarrow> ModeAction \<times> string \<times> 'v channel_modes server"
  SerializeParam :: "string \<Rightarrow> 'v \<Rightarrow> string"

definition Channel_IsModeSet :: "string \<Rightarrow> 'v ParamModeBase \<Rightarrow> 'v channel_modes server \<Rightarrow> bool" where
  "Channel_IsModeSet c pm st = ((c, pm_name pm) \<in> chanmodes (world st))"

definition Channel_SetMode ::
  "string \<Rightarrow> 'v ParamModeBase \<Rightarrow> bool \<Rightarrow> 'v channel_modes server \<Rightarrow> 'v channel_modes server" where
  "Channel_SetMode c pm value st =
     st\<lparr> world := (world st)\<lparr> chanmodes :=
            (if value then insert (c, pm_name pm) (chanmodes (world st))
             else chanmodes (world st) - {(c, pm_name pm)}) \<rparr> \<rparr>"

definition GetParameter :: "'v ParamModeBase \<Rightarrow> string \<Rightarrow> 'v channel_modes server \<Rightarrow> string" where
  "GetParameter pm c st =
     (case stored (world st) (c, pm_name pm) of
        Some v \<Rightarrow> SerializeParam pm c v
      | None \<Rightarrow> [])"

definition OnUnsetInternal ::
  "'v ParamModeBase \<Rightarrow> User \<Rightarrow> string \<Rightarrow> 'v channel_modes server \<Rightarrow> 'v channel_modes server" where
  "OnUnsetInternal pm source c st =
     st\<lparr> world := (world st)\<lparr> stored := (stored (world st))((c, pm_name pm) := None) \<rparr> \<rparr>"

definition Channel_GetModeParameter ::
  "string \<Rightarrow> 'v ParamModeBase \<Rightarrow> 'v channel_modes server \<Rightarrow> string" where
  "Channel_GetModeParameter c pm st = (if Channel_IsModeSet c pm st then GetParameter pm c st else [])"

text \<open>
  \<^verbatim>\<open>ParamModeBase::OnModeChange\<close>. The handler of a channel mode is called with a
  channel.
\<close>

definition ParamModeBase_OnModeChange ::
  "'v ParamModeBase \<Rightarrow> User \<Rightarrow> User option \<Rightarrow> string option \<Rightarrow> Change \<Rightarrow> 'v channel_modes server
   \<Rightarrow> ModeAction \<times> Change \<times> 'v channel_modes server" where
  "ParamModeBase_OnModeChange pm source dest chan change st =
     (case chan of
        None \<Rightarrow> (MODEACTION_DENY, change, st)
      | Some c \<Rightarrow>
          if adding change
          then
            if Channel_GetModeParameter c pm st = param change then (MODEACTION_DENY, change, st)
            else
              (case OnSet pm source c (param change) st of
                 (ma, param', st') \<Rightarrow>
                   if ma \<noteq> MODEACTION_ALLOW then (MODEACTION_DENY, change\<lparr> param := param' \<rparr>, st')
                   else
                     (let st'' = Channel_SetMode c pm True st'
                      in (MODEACTION_ALLOW, change\<lparr> param := GetParameter pm c st'' \<rparr>, st'')))
          else
            if \<not> Channel_IsModeSet c pm st then (MODEACTION_DENY, change, st)
            else (MODEACTION_ALLOW, change, Channel_SetMode c pm False (OnUnsetInternal pm source c st)))"

lemma GetParameter_SetMode: "GetParameter pm c (Channel_SetMode c' pm' value st) = GetParameter pm c st"
  by (simp add: GetParameter_def Channel_SetMode_def)


text \<open>
  An adding change that \<^verbatim>\<open>OnSet\<close> accepts carries, after the call, the parameter as
  \<^verbatim>\<open>GetParameter\<close> reads it back: for a handler that rewrites what it stores, that is
  the rewritten parameter.
\<close>

lemma ParamModeBase_reads_back:
  assumes "\<not> Channel_IsModeSet c pm st" and "P \<noteq> []"
    and "OnSet pm source c P st = (MODEACTION_ALLOW, P', st1)"
  shows "ParamModeBase_OnModeChange pm source dest (Some c) \<lparr> adding = True, param = P \<rparr> st
           = (MODEACTION_ALLOW, \<lparr> adding = True, param = GetParameter pm c st1 \<rparr>,
              Channel_SetMode c pm True st1)"
  using assms
  by (simp add: ParamModeBase_OnModeChange_def Channel_GetModeParameter_def Let_def GetParameter_SetMode)







end
